theory Spec2Isabelle
  imports Complex_Main "HOL-Library.Word"
begin

section \<open>s3\_perf: a bounded-concurrency S3 throughput test\<close>

text \<open>
  The development embeds \<^verbatim>\<open>src/s3_perf.cc\<close>.  The C++ \<^verbatim>\<open>int\<close> (and gflags
  \<^verbatim>\<open>int32\<close>) is a 32-bit word read as two's complement: comparisons are the signed
  ones, \<open>+\<close> and \<open>*\<close> wrap around.  \<^verbatim>\<open>long long\<close> is a 64-bit word, a
  \<^verbatim>\<open>double\<close> is the real number it stands for (rounding is not modelled).

  Every critical section of \<^verbatim>\<open>Ctx\<close> runs under \<^verbatim>\<open>mtx_\<close>, so it is one atomic
  step of the thread that executes it.  A thread blocked in \<^verbatim>\<open>cond_.wait\<close> has
  given the mutex up; it continues when the scheduler picks it again.  The C++ standard
  lets \<^verbatim>\<open>wait\<close> return without a notification, so \<^verbatim>\<open>notify_one\<close> leaves no trace
  in the state.  \<^verbatim>\<open>assert\<close> is compiled in (no \<^verbatim>\<open>NDEBUG\<close>): a failed assertion aborts
  the process.

  The object store is the environment: a request that was submitted completes at some
  later step, or never, with an outcome the store chooses.  Left out are the payload
  (\<^verbatim>\<open>InitChunk\<close>, \<^verbatim>\<open>g_obj\<close>), the configuration and the start and shutdown of the
  client library, and the listing of the flags that \<^verbatim>\<open>PrintVars\<close> prints once before
  the first stage.
\<close>

subsection \<open>Flags\<close>

type_synonym int32 = "32 word"
type_synonym int64 = "64 word"

record flags =
  FLAGS_bucket_name :: string
  FLAGS_region :: string
  FLAGS_prefix :: string
  FLAGS_obj_size_kb :: int32
  FLAGS_num_threads :: int32
  FLAGS_num_objects :: int32
  FLAGS_num_connections :: int32
  FLAGS_num_outstanding_req :: int32
  FLAGS_stage :: string
  FLAGS_count :: int32

text \<open>The defaults of the \<^verbatim>\<open>DEFINE_string\<close> and \<^verbatim>\<open>DEFINE_int32\<close> declarations.\<close>

definition default_flags :: flags where
  "default_flags =
     \<lparr>FLAGS_bucket_name = ''ltsstest'', FLAGS_region = ''us-west-1'', FLAGS_prefix = ''obj/'',
      FLAGS_obj_size_kb = 1024, FLAGS_num_threads = 1, FLAGS_num_objects = 100,
      FLAGS_num_connections = 25, FLAGS_num_outstanding_req = 0, FLAGS_stage = ''all'',
      FLAGS_count = 5\<rparr>"

subsection \<open>Output, process termination\<close>

text \<open>What is streamed to \<^verbatim>\<open>cout\<close> or \<^verbatim>\<open>cerr\<close>, one token for each \<^verbatim>\<open><<\<close>.
  \<open>AssertMsg\<close> is the diagnostic of a failed \<^verbatim>\<open>assert\<close>, named by its expression.\<close>

datatype tok = Str string | Num int | Dbl real | Endl | AssertMsg string

datatype halt = Exit int | Abort

type_synonym 'a proc = "(tok list \<times> halt) + 'a"

subsection \<open>Decimal rendering\<close>

text \<open>Modelled from the spec: \<^verbatim>\<open>Aws::Utils::StringUtils::to_string\<close> and
  \<^verbatim>\<open>std::to_string\<close> belong to the libraries, not to this repository.  The spec
  writes keys as \<^verbatim>\<open><prefix><worker_id>_<object_index>\<close> (\<^verbatim>\<open>prefix0_0\<close>,
  \<^verbatim>\<open>prefix1_2\<close>): an \<^verbatim>\<open>int\<close> is rendered in decimal.\<close>

fun digits :: "nat \<Rightarrow> string" where
  "digits n = (if n < 10 then [''0123456789'' ! n]
               else digits (n div 10) @ [''0123456789'' ! (n mod 10)])"

declare digits.simps [simp del]

definition to_string :: "int32 \<Rightarrow> string" where
  "to_string i = (if sint i < 0 then CHR ''-'' # digits (nat (- sint i))
                  else digits (nat (sint i)))"

subsection \<open>Object names\<close>

definition GetObjPrefix :: "flags \<Rightarrow> int32 \<Rightarrow> string" where
  "GetObjPrefix fl thread_num = FLAGS_prefix fl @ to_string thread_num @ ''_''"

subsection \<open>The slot limiter \<^verbatim>\<open>Ctx\<close>\<close>

record Ctx =
  num_outstanding_req :: int32

definition new_Ctx :: Ctx where
  "new_Ctx = \<lparr>num_outstanding_req = 0\<rparr>"

text \<open>\<^verbatim>\<open>GetAvailableSlot\<close> has one point where it can block.  \<open>GetAvailableSlot_full\<close>
  is the test of its \<^verbatim>\<open>if\<close>; \<open>GetAvailableSlot_take\<close> is the assertion and the
  increment, which run with the mutex held either at once or after the wait.\<close>

definition GetAvailableSlot_full :: "flags \<Rightarrow> Ctx \<Rightarrow> bool" where
  "GetAvailableSlot_full fl c = (FLAGS_num_outstanding_req fl \<le>s num_outstanding_req c)"

definition GetAvailableSlot_take :: "flags \<Rightarrow> Ctx \<Rightarrow> Ctx proc" where
  "GetAvailableSlot_take fl c =
     (if num_outstanding_req c <s FLAGS_num_outstanding_req fl
      then Inr (c\<lparr>num_outstanding_req := num_outstanding_req c + 1\<rparr>)
      else Inl ([AssertMsg ''num_outstanding_req_ < FLAGS_num_outstanding_req''], Abort))"

definition ReleaseSlot :: "Ctx \<Rightarrow> Ctx proc" where
  "ReleaseSlot c =
     (if 0 <s num_outstanding_req c
      then Inr (c\<lparr>num_outstanding_req := num_outstanding_req c - 1\<rparr>)
      else Inl ([AssertMsg ''num_outstanding_req_ > 0''], Abort))"

text \<open>The test of the \<^verbatim>\<open>while\<close> in \<^verbatim>\<open>WaitAll\<close>: true when the caller has to wait.\<close>

definition WaitAll_test :: "Ctx \<Rightarrow> bool" where
  "WaitAll_test c = (0 <s num_outstanding_req c)"

subsection \<open>Completion handlers\<close>

record AWSError =
  ExceptionName :: string
  Message :: string

datatype 'r Outcome = Failure AWSError | Success 'r

record GetObjectResult =
  ContentLength :: int64

definition ObjUploadDone :: "unit Outcome \<Rightarrow> Ctx \<Rightarrow> Ctx proc" where
  "ObjUploadDone outcome c =
     (case outcome of
        Failure error \<Rightarrow>
          Inl ([Str ''ERROR: '', Str (ExceptionName error), Str '': '',
                Str (Message error), Endl], Exit 1)
      | Success _ \<Rightarrow> ReleaseSlot c)"

text \<open>In \<^verbatim>\<open>GetContentLength() != FLAGS_obj_size_kb * 1024\<close> the product is computed
  in \<^verbatim>\<open>int\<close> and then widened to \<^verbatim>\<open>long long\<close> for the comparison.\<close>

definition ObjDownloadDone :: "flags \<Rightarrow> GetObjectResult Outcome \<Rightarrow> Ctx \<Rightarrow> Ctx proc" where
  "ObjDownloadDone fl outcome c =
     (case outcome of
        Failure error \<Rightarrow>
          Inl ([Str ''ERROR: '', Str (ExceptionName error), Str '': '',
                Str (Message error), Endl], Exit 1)
      | Success result \<Rightarrow>
          if sint (ContentLength result) \<noteq> sint (FLAGS_obj_size_kb fl * 1024)
          then Inl ([Str ''ERROR: invalid object size '', Num (sint (ContentLength result)),
                     Str '', expected '', Num (sint (FLAGS_obj_size_kb fl * 1024)),
                     Str '' bytes'', Endl], Exit 1)
          else ReleaseSlot c)"

subsection \<open>One worker: \<^verbatim>\<open>UploadThread\<close> and \<^verbatim>\<open>DownloadThread\<close>\<close>

datatype stage = UPLOAD | DOWNLOAD

datatype request = PutObjectRequest string string | GetObjectRequest string string

fun Key :: "request \<Rightarrow> string" where
  "Key (PutObjectRequest bucket k) = k"
| "Key (GetObjectRequest bucket k) = k"

text \<open>Where the driver thread stands: at the test of its \<^verbatim>\<open>for\<close> loop, blocked in
  the \<^verbatim>\<open>wait\<close> of \<^verbatim>\<open>GetAvailableSlot\<close>, about to call \<^verbatim>\<open>PutObjectAsync\<close> or
  \<^verbatim>\<open>GetObjectAsync\<close>, entering \<^verbatim>\<open>WaitAll\<close>, blocked in its \<^verbatim>\<open>wait\<close>, or returned.\<close>

datatype wpc = ForTest | SlotWait | Submit | Drain | DrainWait | Returned

text \<open>\<open>submitted\<close> lists the requests handed to the client, \<open>pending\<close> counts those
  whose completion handler has not run yet, \<open>released\<close> counts the handlers that
  returned (each after its \<^verbatim>\<open>ReleaseSlot\<close>).\<close>

record worker =
  mode :: stage
  obj_name_prefix :: string
  ii :: int32
  ctx :: Ctx
  wpc :: wpc
  submitted :: "request list"
  pending :: nat
  released :: nat

definition new_worker :: "flags \<Rightarrow> stage \<Rightarrow> int32 \<Rightarrow> worker" where
  "new_worker fl st thread_num =
     \<lparr>mode = st, obj_name_prefix = GetObjPrefix fl thread_num, ii = 0, ctx = new_Ctx,
      wpc = ForTest, submitted = [], pending = 0, released = 0\<rparr>"

definition object_request :: "flags \<Rightarrow> worker \<Rightarrow> request" where
  "object_request fl w =
     (case mode w of
        UPLOAD \<Rightarrow> PutObjectRequest (FLAGS_bucket_name fl) (obj_name_prefix w @ to_string (ii w))
      | DOWNLOAD \<Rightarrow> GetObjectRequest (FLAGS_bucket_name fl) (obj_name_prefix w @ to_string (ii w)))"

definition take_slot :: "flags \<Rightarrow> worker \<Rightarrow> worker proc" where
  "take_slot fl w =
     (case GetAvailableSlot_take fl (ctx w) of
        Inl h \<Rightarrow> Inl h
      | Inr c \<Rightarrow> Inr (w\<lparr>ctx := c, wpc := Submit\<rparr>))"

definition wait_all :: "worker \<Rightarrow> worker" where
  "wait_all w = w\<lparr>wpc := (if WaitAll_test (ctx w) then DrainWait else Returned)\<rparr>"

text \<open>One step of the driver thread.  The loop body builds its request before it takes the
  slot; \<^verbatim>\<open>ii\<close> does not change in between, so the request is built here where it is
  handed to the client.\<close>

definition driver_step :: "flags \<Rightarrow> worker \<Rightarrow> worker proc" where
  "driver_step fl w =
     (case wpc w of
        ForTest \<Rightarrow>
          if ii w <s FLAGS_num_objects fl
          then (if GetAvailableSlot_full fl (ctx w) then Inr (w\<lparr>wpc := SlotWait\<rparr>)
                else take_slot fl w)
          else Inr (w\<lparr>wpc := Drain\<rparr>)
      | SlotWait \<Rightarrow> take_slot fl w
      | Submit \<Rightarrow>
          Inr (w\<lparr>submitted := submitted w @ [object_request fl w],
                 pending := Suc (pending w), ii := ii w + 1, wpc := ForTest\<rparr>)
      | Drain \<Rightarrow> Inr (wait_all w)
      | DrainWait \<Rightarrow> Inr (wait_all w)
      | Returned \<Rightarrow> Inr w)"

text \<open>A completion handler runs on a thread of the client, for one pending request.\<close>

definition callback :: "(Ctx \<Rightarrow> Ctx proc) \<Rightarrow> worker \<Rightarrow> worker proc" where
  "callback handler w =
     (if pending w = 0 then Inr w
      else case handler (ctx w) of
             Inl h \<Rightarrow> Inl h
           | Inr c \<Rightarrow> Inr (w\<lparr>ctx := c, pending := pending w - 1, released := Suc (released w)\<rparr>))"

datatype wevent = Driver | PutDone "unit Outcome" | GetDone "GetObjectResult Outcome"

definition wstep :: "flags \<Rightarrow> wevent \<Rightarrow> worker \<Rightarrow> worker proc" where
  "wstep fl e w =
     (case e of
        Driver \<Rightarrow> driver_step fl w
      | PutDone outcome \<Rightarrow>
          if mode w = UPLOAD then callback (ObjUploadDone outcome) w else Inr w
      | GetDone outcome \<Rightarrow>
          if mode w = DOWNLOAD then callback (ObjDownloadDone fl outcome) w else Inr w)"

text \<open>A run of the worker under a schedule; the process stops at the first \<open>Inl\<close>.\<close>

fun wrun :: "flags \<Rightarrow> wevent list \<Rightarrow> worker \<Rightarrow> worker proc" where
  "wrun fl [] w = Inr w"
| "wrun fl (e # es) w = (case wstep fl e w of Inl h \<Rightarrow> Inl h | Inr w' \<Rightarrow> wrun fl es w')"

subsection \<open>The reporter \<^verbatim>\<open>ReportDuration\<close>\<close>

text \<open>The constructor prints the start line and reads the clock; the destructor reads the
  clock again and prints the summary.  The seconds between the two readings are an input
  of the model: \<open>time_sec\<close>.\<close>

record ReportDuration =
  operation :: string
  num_threads :: int32
  obj_per_thread :: int32
  obj_size_kb :: int32

definition ReportDuration_ctor :: "ReportDuration \<Rightarrow> tok list" where
  "ReportDuration_ctor r = [Str (operation r), Str '' starting'', Endl]"

definition ReportDuration_dtor :: "ReportDuration \<Rightarrow> real \<Rightarrow> tok list" where
  "ReportDuration_dtor r time_sec =
     (let num_obj = num_threads r * obj_per_thread r;
          total_size_mb = real_of_int (sint (obj_size_kb r)) * real_of_int (sint num_obj) / 1024
      in [Str (operation r), Str '' completed in '', Dbl time_sec, Str '' seconds (total: '',
          Num (sint num_obj), Str '' objects, '', Dbl total_size_mb, Str '' MB)'', Endl,
          Str (operation r), Str '' throughput: '', Dbl (total_size_mb / time_sec),
          Str '' MB/sec, '', Dbl (real_of_int (sint num_obj) / time_sec), Str '' obj/sec'',
          Endl, Endl])"

subsection \<open>The process: \<^verbatim>\<open>main\<close>, \<^verbatim>\<open>Upload\<close>, \<^verbatim>\<open>Download\<close> and their threads\<close>

fun stage_name :: "stage \<Rightarrow> string" where
  "stage_name UPLOAD = ''UPLOAD''"
| "stage_name DOWNLOAD = ''DOWNLOAD''"

text \<open>The report that \<^verbatim>\<open>main\<close> wraps around a stage, and the report that \<^verbatim>\<open>Upload\<close>
  or \<^verbatim>\<open>Download\<close> wraps around one iteration.\<close>

definition stage_report :: "flags \<Rightarrow> stage \<Rightarrow> ReportDuration" where
  "stage_report fl st =
     \<lparr>operation = stage_name st @ '' stage'', num_threads = FLAGS_num_threads fl,
      obj_per_thread = FLAGS_num_objects fl * FLAGS_count fl,
      obj_size_kb = FLAGS_obj_size_kb fl\<rparr>"

definition iteration_report :: "flags \<Rightarrow> stage \<Rightarrow> int32 \<Rightarrow> ReportDuration" where
  "iteration_report fl st iteration =
     \<lparr>operation = ''  ['' @ to_string iteration @ ''] '' @ stage_name st,
      num_threads = FLAGS_num_threads fl, obj_per_thread = FLAGS_num_objects fl,
      obj_size_kb = FLAGS_obj_size_kb fl\<rparr>"

text \<open>The tests \<^verbatim>\<open>FLAGS_stage != "download"\<close> and \<^verbatim>\<open>FLAGS_stage != "upload"\<close>.\<close>

fun stage_selected :: "flags \<Rightarrow> stage \<Rightarrow> bool" where
  "stage_selected fl UPLOAD = (FLAGS_stage fl \<noteq> ''download'')"
| "stage_selected fl DOWNLOAD = (FLAGS_stage fl \<noteq> ''upload'')"

text \<open>Where the main thread stands: before the normalisation of
  \<^verbatim>\<open>FLAGS_num_outstanding_req\<close>; at the \<^verbatim>\<open>if\<close> of a stage; at the test of the loop
  over the iterations of a stage; in \<^verbatim>\<open>Upload\<close> or \<^verbatim>\<open>Download\<close>, at the test of the
  loop that creates the threads or of the loop that joins them; after \<^verbatim>\<open>return 0\<close>.\<close>

datatype mpc =
  Start
| StageIf stage
| IterFor stage int32
| SpawnFor stage int32 int32
| JoinFor stage int32 int32
| Finished

datatype status = Running | Halted halt

text \<open>\<open>out\<close> is what the reports stream to \<^verbatim>\<open>cout\<close>, \<open>err\<close> what the handlers and
  failed assertions write to \<^verbatim>\<open>cerr\<close>; \<open>threads\<close> are the threads of the iteration
  that runs.\<close>

record process =
  FLAGS :: flags
  mpc :: mpc
  threads :: "worker list"
  out :: "tok list"
  err :: "tok list"
  status :: status

definition initial :: "flags \<Rightarrow> process" where
  "initial fl = \<lparr>FLAGS = fl, mpc = Start, threads = [], out = [], err = [], status = Running\<rparr>"

text \<open>The end of the block of a stage: on to the next stage, or \<^verbatim>\<open>return 0\<close>.\<close>

fun stage_end :: "stage \<Rightarrow> process \<Rightarrow> process" where
  "stage_end UPLOAD s = s\<lparr>mpc := StageIf DOWNLOAD\<rparr>"
| "stage_end DOWNLOAD s = s\<lparr>mpc := Finished, status := Halted (Exit 0)\<rparr>"

text \<open>\<^verbatim>\<open>threads[ii]->join()\<close> returns once the thread function has returned.\<close>

definition joined :: "worker list \<Rightarrow> int32 \<Rightarrow> bool" where
  "joined ths i = (unat i < length ths \<and> wpc (ths ! unat i) = Returned)"

text \<open>One step of the main thread.  \<open>elapsed\<close> gives, for the operation name of a report,
  the seconds its destructor measures.\<close>

definition main_step :: "(string \<Rightarrow> real) \<Rightarrow> process \<Rightarrow> process" where
  "main_step elapsed s =
     (let fl = FLAGS s in
      case mpc s of
        Start \<Rightarrow>
          s\<lparr>FLAGS := (if FLAGS_num_outstanding_req fl \<le>s 0
                       then fl\<lparr>FLAGS_num_outstanding_req := FLAGS_num_connections fl\<rparr>
                       else fl),
            mpc := StageIf UPLOAD\<rparr>
      | StageIf st \<Rightarrow>
          if stage_selected fl st
          then s\<lparr>out := out s @ ReportDuration_ctor (stage_report fl st), mpc := IterFor st 1\<rparr>
          else stage_end st s
      | IterFor st iteration \<Rightarrow>
          if iteration \<le>s FLAGS_count fl
          then s\<lparr>out := out s @ ReportDuration_ctor (iteration_report fl st iteration),
                 threads := [], mpc := SpawnFor st iteration 0\<rparr>
          else stage_end st
                 (s\<lparr>out := out s @ ReportDuration_dtor (stage_report fl st)
                                      (elapsed (operation (stage_report fl st)))\<rparr>)
      | SpawnFor st iteration i \<Rightarrow>
          if i <s FLAGS_num_threads fl
          then s\<lparr>threads := threads s @ [new_worker fl st i], mpc := SpawnFor st iteration (i + 1)\<rparr>
          else s\<lparr>mpc := JoinFor st iteration 0\<rparr>
      | JoinFor st iteration i \<Rightarrow>
          if i <s FLAGS_num_threads fl
          then (if joined (threads s) i then s\<lparr>mpc := JoinFor st iteration (i + 1)\<rparr> else s)
          else s\<lparr>out := out s @ ReportDuration_dtor (iteration_report fl st iteration)
                                   (elapsed (operation (iteration_report fl st iteration))),
                 threads := [], mpc := IterFor st (iteration + 1)\<rparr>
      | Finished \<Rightarrow> s)"

text \<open>The scheduler picks the main thread, or thread \<open>k\<close> of the running iteration with
  what happens to it.  \<^verbatim>\<open>exit\<close> and a failed \<^verbatim>\<open>assert\<close> end the whole process: nothing
  steps after that.\<close>

datatype event = Main | Thread nat wevent

definition step :: "(string \<Rightarrow> real) \<Rightarrow> event \<Rightarrow> process \<Rightarrow> process" where
  "step elapsed e s =
     (if status s \<noteq> Running then s
      else case e of
             Main \<Rightarrow> main_step elapsed s
           | Thread k we \<Rightarrow>
               if k < length (threads s)
               then (case wstep (FLAGS s) we (threads s ! k) of
                       Inl (msg, h) \<Rightarrow> s\<lparr>err := err s @ msg, status := Halted h\<rparr>
                     | Inr w \<Rightarrow> s\<lparr>threads := (threads s)[k := w]\<rparr>)
               else s)"

fun run :: "(string \<Rightarrow> real) \<Rightarrow> event list \<Rightarrow> process \<Rightarrow> process" where
  "run elapsed [] s = s"
| "run elapsed (e # es) s = run elapsed es (step elapsed e s)"

subsection \<open>Two small configurations\<close>





subsection \<open>Two more configurations\<close>



definition huge_object_flags :: flags where
  "huge_object_flags =
     default_flags\<lparr>FLAGS_stage := ''download'', FLAGS_obj_size_kb := 4194304,
                   FLAGS_num_objects := 1, FLAGS_count := 1\<rparr>"

definition empty_object_schedule :: "event list" where
  "empty_object_schedule =
     [Main, Main, Main, Main, Main, Thread 0 Driver, Thread 0 Driver,
      Thread 0 (GetDone (Success \<lparr>ContentLength = 0\<rparr>)), Thread 0 Driver, Thread 0 Driver,
      Main, Main, Main, Main]"

section \<open>Invariants of a worker\<close>

text \<open>The outstanding count stays between 0 and the configured maximum.\<close>
definition count_ok :: "flags \<Rightarrow> worker \<Rightarrow> bool" where
  "count_ok fl w = (0 \<le> sint (num_outstanding_req (ctx w)) \<and>
     sint (num_outstanding_req (ctx w)) \<le> sint (FLAGS_num_outstanding_req fl))"

text \<open>The count is the number of requests in flight, plus the slot taken for the request
  about to be submitted; every submitted request is in flight or was released.\<close>

definition slots_ok :: "worker \<Rightarrow> bool" where
  "slots_ok w =
     (sint (num_outstanding_req (ctx w)) = int (pending w) + (if wpc w = Submit then 1 else 0) \<and>
      released w + pending w = length (submitted w) \<and>
      (wpc w = Returned \<longrightarrow> pending w = 0))"

definition object_key :: "string \<Rightarrow> int32 \<Rightarrow> int32 \<Rightarrow> string" where
  "object_key prefix worker_id index = prefix @ to_string worker_id @ ''_'' @ to_string index"

definition never_taken :: "worker \<Rightarrow> bool" where
  "never_taken w =
     (num_outstanding_req (ctx w) = 0 \<and> submitted w = [] \<and> pending w = 0 \<and> wpc w \<noteq> Submit)"

definition request_of :: "flags \<Rightarrow> stage \<Rightarrow> int32 \<Rightarrow> nat \<Rightarrow> request" where
  "request_of fl st thread_num k =
     (case st of
        UPLOAD \<Rightarrow> PutObjectRequest (FLAGS_bucket_name fl)
                    (object_key (FLAGS_prefix fl) thread_num (of_nat k))
      | DOWNLOAD \<Rightarrow> GetObjectRequest (FLAGS_bucket_name fl)
                    (object_key (FLAGS_prefix fl) thread_num (of_nat k)))"

definition loop_ok :: "flags \<Rightarrow> stage \<Rightarrow> int32 \<Rightarrow> worker \<Rightarrow> bool" where
  "loop_ok fl st thread_num w =
     (mode w = st \<and> obj_name_prefix w = GetObjPrefix fl thread_num \<and>
      0 \<le> sint (ii w) \<and> sint (ii w) \<le> max 0 (sint (FLAGS_num_objects fl)) \<and>
      (wpc w = SlotWait \<or> wpc w = Submit \<longrightarrow> ii w <s FLAGS_num_objects fl) \<and>
      (wpc w = Drain \<or> wpc w = DrainWait \<or> wpc w = Returned \<longrightarrow> \<not> ii w <s FLAGS_num_objects fl) \<and>
      submitted w = map (request_of fl st thread_num) [0..<nat (sint (ii w))])"

section \<open>Invariants of the process\<close>

text \<open>What \<^verbatim>\<open>cout\<close> holds when the main thread stands at a given place: the output of
  the stages before, the start line of the stage, the two reports of every iteration
  that is over, and the start line of the iteration that runs.\<close>

definition iteration_out :: "flags \<Rightarrow> (string \<Rightarrow> real) \<Rightarrow> stage \<Rightarrow> int32 \<Rightarrow> tok list" where
  "iteration_out fl elapsed st iteration =
     ReportDuration_ctor (iteration_report fl st iteration) @
     ReportDuration_dtor (iteration_report fl st iteration)
       (elapsed (operation (iteration_report fl st iteration)))"

definition iterations_out :: "flags \<Rightarrow> (string \<Rightarrow> real) \<Rightarrow> stage \<Rightarrow> nat \<Rightarrow> tok list" where
  "iterations_out fl elapsed st n =
     concat (map (\<lambda>j. iteration_out fl elapsed st (of_nat j)) [1..<Suc n])"

definition stage_out :: "flags \<Rightarrow> (string \<Rightarrow> real) \<Rightarrow> stage \<Rightarrow> tok list" where
  "stage_out fl elapsed st =
     (if stage_selected fl st
      then ReportDuration_ctor (stage_report fl st) @
           iterations_out fl elapsed st (nat (sint (FLAGS_count fl))) @
           ReportDuration_dtor (stage_report fl st) (elapsed (operation (stage_report fl st)))
      else [])"






definition normalised :: "flags \<Rightarrow> flags" where
  "normalised fl =
     fl\<lparr>FLAGS_num_outstanding_req :=
          (if FLAGS_num_outstanding_req fl \<le>s 0 then FLAGS_num_connections fl
           else FLAGS_num_outstanding_req fl)\<rparr>"


text \<open>Every thread of a state the process reaches is a worker in a state it reaches on
  its own, under the flags as they are after the start-up step.\<close>

definition workers_ok :: "flags \<Rightarrow> process \<Rightarrow> bool" where
  "workers_ok fl s =
     ((s = initial fl \<or> FLAGS s = normalised fl) \<and>
      (\<forall>w \<in> set (threads s). \<exists>st i wes.
          wrun (normalised fl) wes (new_worker (normalised fl) st i) = Inr w))"



section \<open>Schedules that complete a stage\<close>



section \<open>Arithmetic of 32-bit counters\<close>

lemma sint_succ:
  assumes "(a::int32) <s b"
  shows "sint (a + 1) = sint a + 1"
proof -
  have "sint a < sint b" using assms by (simp add: word_sless_alt)
  moreover have "sint b < 2 ^ 31" using sint_lt [of b] by simp
  moreover have "- (2 ^ 31) \<le> sint a" using sint_ge [of a] by simp
  ultimately show ?thesis
    by (simp add: sint_word_ariths signed_take_bit_int_eq_self)
qed

lemma sint_pred:
  assumes "0 <s (a::int32)"
  shows "sint (a - 1) = sint a - 1"
proof -
  have "0 < sint a" using assms by (simp add: word_sless_alt)
  moreover have "sint a < 2 ^ 31" using sint_lt [of a] by simp
  ultimately show ?thesis
    by (simp add: sint_word_ariths signed_take_bit_int_eq_self)
qed


section \<open>What the operations of the slot limiter do\<close>

lemma GetAvailableSlot_take_Inr:
  assumes "GetAvailableSlot_take fl c = Inr c'"
  shows "sint (num_outstanding_req c) < sint (FLAGS_num_outstanding_req fl) \<and>
         sint (num_outstanding_req c') = sint (num_outstanding_req c) + 1"
proof -
  from assms have lt: "num_outstanding_req c <s FLAGS_num_outstanding_req fl"
    and c': "c' = c\<lparr>num_outstanding_req := num_outstanding_req c + 1\<rparr>"
    by (auto simp: GetAvailableSlot_take_def split: if_splits)
  from lt c' show ?thesis
    using sint_succ [OF lt] by (simp add: word_sless_alt)
qed

lemma ReleaseSlot_Inr:
  assumes "ReleaseSlot c = Inr c'"
  shows "0 < sint (num_outstanding_req c) \<and>
         sint (num_outstanding_req c') = sint (num_outstanding_req c) - 1"
proof -
  from assms have lt: "0 <s num_outstanding_req c"
    and c': "c' = c\<lparr>num_outstanding_req := num_outstanding_req c - 1\<rparr>"
    by (auto simp: ReleaseSlot_def split: if_splits)
  from lt c' show ?thesis
    using sint_pred [OF lt] by (simp add: word_sless_alt)
qed

lemma take_slot_Inr:
  assumes "take_slot fl w = Inr w'"
  obtains c where "GetAvailableSlot_take fl (ctx w) = Inr c" and "w' = w\<lparr>ctx := c, wpc := Submit\<rparr>"
  using assms by (auto simp: take_slot_def split: sum.splits)

lemma callback_Inr:
  assumes "callback handler w = Inr w'"
  obtains "pending w = 0" and "w' = w"
  | c where "0 < pending w" and "handler (ctx w) = Inr c"
      and "w' = w\<lparr>ctx := c, pending := pending w - 1, released := Suc (released w)\<rparr>"
  using assms by (auto simp: callback_def split: if_splits sum.splits)

lemma ObjUploadDone_Inr: "ObjUploadDone oc c = Inr c' \<Longrightarrow> ReleaseSlot c = Inr c'"
  by (auto simp: ObjUploadDone_def split: Outcome.splits)

lemma ObjDownloadDone_Inr: "ObjDownloadDone fl oc c = Inr c' \<Longrightarrow> ReleaseSlot c = Inr c'"
  by (auto simp: ObjDownloadDone_def split: Outcome.splits if_splits)

lemma take_slot_count_ok:
  assumes "count_ok fl w" and "take_slot fl w = Inr w'"
  shows "count_ok fl w'"
proof -
  from assms(2) obtain c where c: "GetAvailableSlot_take fl (ctx w) = Inr c"
    and w': "w' = w\<lparr>ctx := c, wpc := Submit\<rparr>"
    by (rule take_slot_Inr)
  from GetAvailableSlot_take_Inr [OF c] assms(1) show ?thesis
    by (simp add: count_ok_def w')
qed

lemma driver_step_count_ok:
  assumes "count_ok fl w" and "driver_step fl w = Inr w'"
  shows "count_ok fl w'"
proof (cases "wpc w")
  case ForTest
  with assms(2) have "take_slot fl w = Inr w' \<or> w' = w\<lparr>wpc := SlotWait\<rparr> \<or> w' = w\<lparr>wpc := Drain\<rparr>"
    by (auto simp: driver_step_def split: if_splits)
  with assms(1) show ?thesis
    by (auto simp: count_ok_def dest: take_slot_count_ok [OF assms(1)])
next
  case SlotWait
  with assms show ?thesis
    by (simp add: driver_step_def take_slot_count_ok)
next
  case Submit
  with assms show ?thesis by (auto simp: driver_step_def count_ok_def)
next
  case Drain
  with assms show ?thesis by (auto simp: driver_step_def wait_all_def count_ok_def)
next
  case DrainWait
  with assms show ?thesis by (auto simp: driver_step_def wait_all_def count_ok_def)
next
  case Returned
  with assms show ?thesis by (auto simp: driver_step_def)
qed

lemma callback_count_ok:
  assumes "count_ok fl w" and "callback handler w = Inr w'"
    and rel: "\<And>c. handler (ctx w) = Inr c \<Longrightarrow> ReleaseSlot (ctx w) = Inr c"
  shows "count_ok fl w'"
  using assms(2)
proof (cases rule: callback_Inr)
  case 1
  with assms(1) show ?thesis by simp
next
  case (2 c)
  from ReleaseSlot_Inr [OF rel [OF 2(2)]] assms(1) show ?thesis
    by (simp add: count_ok_def 2(3))
qed

lemma wstep_count_ok:
  assumes "count_ok fl w" and "wstep fl e w = Inr w'"
  shows "count_ok fl w'"
proof (cases e)
  case Driver
  with assms show ?thesis by (simp add: wstep_def driver_step_count_ok)
next
  case (PutDone oc)
  show ?thesis
  proof (cases "mode w = UPLOAD")
    case True
    with assms(2) PutDone have "callback (ObjUploadDone oc) w = Inr w'"
      by (simp add: wstep_def)
    then show ?thesis
      by (rule callback_count_ok [OF assms(1)]) (rule ObjUploadDone_Inr)
  next
    case False
    with assms PutDone show ?thesis by (simp add: wstep_def)
  qed
next
  case (GetDone oc)
  show ?thesis
  proof (cases "mode w = DOWNLOAD")
    case True
    with assms(2) GetDone have "callback (ObjDownloadDone fl oc) w = Inr w'"
      by (simp add: wstep_def)
    then show ?thesis
      by (rule callback_count_ok [OF assms(1)]) (rule ObjDownloadDone_Inr)
  next
    case False
    with assms GetDone show ?thesis by (simp add: wstep_def)
  qed
qed

lemma wrun_Cons_Inr:
  assumes "wrun fl (e # es) w = Inr w'"
  obtains w1 where "wstep fl e w = Inr w1" and "wrun fl es w1 = Inr w'"
  using assms by (auto split: sum.splits)

lemma wrun_count_ok:
  "count_ok fl w \<Longrightarrow> wrun fl es w = Inr w' \<Longrightarrow> count_ok fl w'"
proof (induction es arbitrary: w)
  case Nil
  then show ?case by simp
next
  case (Cons e es)
  from Cons.prems(2) obtain w1 where "wstep fl e w = Inr w1" and "wrun fl es w1 = Inr w'"
    by (rule wrun_Cons_Inr)
  with Cons.IH Cons.prems(1) show ?case
    by (blast intro: wstep_count_ok)
qed


lemma new_worker_count_ok:
  "0 <s FLAGS_num_outstanding_req fl \<Longrightarrow> count_ok fl (new_worker fl st thread_num)"
  by (simp add: count_ok_def new_worker_def new_Ctx_def word_sless_alt)

lemma driver_step_count:
  assumes "driver_step fl w = Inr w'"
  shows "ctx w' = ctx w \<or> GetAvailableSlot_take fl (ctx w) = Inr (ctx w')"
proof (cases "wpc w = ForTest \<or> wpc w = SlotWait")
  case True
  with assms have "take_slot fl w = Inr w' \<or> w' = w\<lparr>wpc := SlotWait\<rparr> \<or> w' = w\<lparr>wpc := Drain\<rparr>"
    by (auto simp: driver_step_def split: if_splits)
  then show ?thesis
    by (auto elim: take_slot_Inr)
next
  case False
  with assms show ?thesis
    by (cases "wpc w") (auto simp: driver_step_def wait_all_def)
qed

lemma callback_count:
  assumes "callback handler w = Inr w'"
    and "\<And>c. handler (ctx w) = Inr c \<Longrightarrow> ReleaseSlot (ctx w) = Inr c"
  shows "ctx w' = ctx w \<or> ReleaseSlot (ctx w) = Inr (ctx w')"
  using assms(1) by (cases rule: callback_Inr) (auto dest: assms(2))

lemma wstep_count:
  assumes "wstep fl e w = Inr w'"
  shows "ctx w' = ctx w \<or> GetAvailableSlot_take fl (ctx w) = Inr (ctx w')
         \<or> ReleaseSlot (ctx w) = Inr (ctx w')"
proof (cases e)
  case Driver
  with assms show ?thesis
    using driver_step_count [of fl w w'] by (auto simp: wstep_def)
next
  case (PutDone oc)
  show ?thesis
  proof (cases "mode w = UPLOAD")
    case True
    with assms PutDone have "callback (ObjUploadDone oc) w = Inr w'"
      by (simp add: wstep_def)
    then have "ctx w' = ctx w \<or> ReleaseSlot (ctx w) = Inr (ctx w')"
      by (rule callback_count) (rule ObjUploadDone_Inr)
    then show ?thesis by blast
  next
    case False
    with assms PutDone show ?thesis by (simp add: wstep_def)
  qed
next
  case (GetDone oc)
  show ?thesis
  proof (cases "mode w = DOWNLOAD")
    case True
    with assms GetDone have "callback (ObjDownloadDone fl oc) w = Inr w'"
      by (simp add: wstep_def)
    then have "ctx w' = ctx w \<or> ReleaseSlot (ctx w) = Inr (ctx w')"
      by (rule callback_count) (rule ObjDownloadDone_Inr)
    then show ?thesis by blast
  next
    case False
    with assms GetDone show ?thesis by (simp add: wstep_def)
  qed
qed

lemma GetAvailableSlot_take_word:
  "GetAvailableSlot_take fl c = Inr c' \<Longrightarrow>
   num_outstanding_req c <s FLAGS_num_outstanding_req fl \<and>
   num_outstanding_req c' = num_outstanding_req c + 1"
  by (auto simp: GetAvailableSlot_take_def split: if_splits)

lemma ReleaseSlot_word:
  "ReleaseSlot c = Inr c' \<Longrightarrow>
   0 <s num_outstanding_req c \<and> num_outstanding_req c' = num_outstanding_req c - 1"
  by (auto simp: ReleaseSlot_def split: if_splits)

section \<open>The driver loop and the drain\<close>

lemma take_slot_slots_ok:
  assumes "slots_ok w" and "wpc w \<noteq> Submit" and "take_slot fl w = Inr w'"
  shows "slots_ok w'"
proof -
  from assms(3) obtain c where c: "GetAvailableSlot_take fl (ctx w) = Inr c"
    and w': "w' = w\<lparr>ctx := c, wpc := Submit\<rparr>"
    by (rule take_slot_Inr)
  from GetAvailableSlot_take_Inr [OF c] assms(1,2) show ?thesis
    by (simp add: slots_ok_def w')
qed

lemma driver_step_cases:
  assumes "driver_step fl w = Inr w'"
  obtains (take) "wpc w = ForTest \<or> wpc w = SlotWait" and "take_slot fl w = Inr w'"
    and "wpc w = ForTest \<longrightarrow> ii w <s FLAGS_num_objects fl"
  | (wait) "wpc w = ForTest" and "ii w <s FLAGS_num_objects fl" and "w' = w\<lparr>wpc := SlotWait\<rparr>"
  | (leave) "wpc w = ForTest" and "\<not> ii w <s FLAGS_num_objects fl" and "w' = w\<lparr>wpc := Drain\<rparr>"
  | (submit) "wpc w = Submit"
      and "w' = w\<lparr>submitted := submitted w @ [object_request fl w],
                  pending := Suc (pending w), ii := ii w + 1, wpc := ForTest\<rparr>"
  | (drain) "wpc w = Drain \<or> wpc w = DrainWait" and "w' = wait_all w"
  | (returned) "wpc w = Returned" and "w' = w"
proof (cases "wpc w")
  case ForTest
  show thesis
  proof (cases "ii w <s FLAGS_num_objects fl")
    case lt: True
    show thesis
    proof (cases "GetAvailableSlot_full fl (ctx w)")
      case True
      with assms ForTest lt have "w' = w\<lparr>wpc := SlotWait\<rparr>"
        by (simp add: driver_step_def)
      with ForTest lt show thesis by (rule wait)
    next
      case False
      with assms ForTest lt have "take_slot fl w = Inr w'"
        by (simp add: driver_step_def)
      with ForTest lt show thesis by (intro take) simp_all
    qed
  next
    case False
    with assms ForTest have "w' = w\<lparr>wpc := Drain\<rparr>"
      by (simp add: driver_step_def)
    with ForTest False show thesis by (rule leave)
  qed
next
  case SlotWait
  with assms have "take_slot fl w = Inr w'"
    by (simp add: driver_step_def)
  with SlotWait show thesis by (intro take) simp_all
next
  case Submit
  with assms have "w' = w\<lparr>submitted := submitted w @ [object_request fl w],
      pending := Suc (pending w), ii := ii w + 1, wpc := ForTest\<rparr>"
    by (simp add: driver_step_def)
  with Submit show thesis by (rule submit)
next
  case Drain
  with assms have "w' = wait_all w" by (simp add: driver_step_def)
  with Drain show thesis by (intro drain) simp_all
next
  case DrainWait
  with assms have "w' = wait_all w" by (simp add: driver_step_def)
  with DrainWait show thesis by (intro drain) simp_all
next
  case Returned
  with assms have "w' = w" by (simp add: driver_step_def)
  with Returned show thesis by (rule returned)
qed

lemma driver_step_slots_ok:
  assumes "slots_ok w" and "driver_step fl w = Inr w'"
  shows "slots_ok w'"
  using assms(2)
proof (cases rule: driver_step_cases)
  case take
  then have "wpc w \<noteq> Submit" by auto
  with assms(1) take(2) show ?thesis by (blast intro: take_slot_slots_ok)
next
  case wait
  with assms(1) show ?thesis by (simp add: slots_ok_def)
next
  case leave
  with assms(1) show ?thesis by (simp add: slots_ok_def)
next
  case submit
  with assms(1) show ?thesis by (simp add: slots_ok_def)
next
  case drain
  with assms(1) show ?thesis
    by (auto simp: slots_ok_def wait_all_def WaitAll_test_def word_sless_alt)
next
  case returned
  with assms(1) show ?thesis by simp
qed

lemma callback_slots_ok:
  assumes "slots_ok w" and "callback handler w = Inr w'"
    and rel: "\<And>c. handler (ctx w) = Inr c \<Longrightarrow> ReleaseSlot (ctx w) = Inr c"
  shows "slots_ok w'"
  using assms(2)
proof (cases rule: callback_Inr)
  case 1
  with assms(1) show ?thesis by simp
next
  case (2 c)
  from assms(1) have a: "sint (num_outstanding_req (ctx w)) =
      int (pending w) + (if wpc w = Submit then 1 else 0)"
    and b: "released w + pending w = length (submitted w)"
    by (simp_all add: slots_ok_def)
  from ReleaseSlot_Inr [OF rel [OF 2(2)]]
  have c: "sint (num_outstanding_req c) = sint (num_outstanding_req (ctx w)) - 1"
    by simp
  from 2(1) have d: "int (pending w - 1) = int (pending w) - 1" by simp
  from 2(1) b have e: "Suc (released w) + (pending w - 1) = length (submitted w)" by simp
  from assms(1) 2(1) have f: "wpc w \<noteq> Returned" by (auto simp: slots_ok_def)
  show ?thesis
    unfolding slots_ok_def 2(3) using a c d e f by simp
qed

lemma wstep_slots_ok:
  assumes "slots_ok w" and "wstep fl e w = Inr w'"
  shows "slots_ok w'"
proof (cases e)
  case Driver
  with assms show ?thesis by (simp add: wstep_def driver_step_slots_ok)
next
  case (PutDone oc)
  show ?thesis
  proof (cases "mode w = UPLOAD")
    case True
    with assms(2) PutDone have "callback (ObjUploadDone oc) w = Inr w'"
      by (simp add: wstep_def)
    then show ?thesis
      by (rule callback_slots_ok [OF assms(1)]) (rule ObjUploadDone_Inr)
  next
    case False
    with assms PutDone show ?thesis by (simp add: wstep_def)
  qed
next
  case (GetDone oc)
  show ?thesis
  proof (cases "mode w = DOWNLOAD")
    case True
    with assms(2) GetDone have "callback (ObjDownloadDone fl oc) w = Inr w'"
      by (simp add: wstep_def)
    then show ?thesis
      by (rule callback_slots_ok [OF assms(1)]) (rule ObjDownloadDone_Inr)
  next
    case False
    with assms GetDone show ?thesis by (simp add: wstep_def)
  qed
qed

lemma wrun_slots_ok:
  "slots_ok w \<Longrightarrow> wrun fl es w = Inr w' \<Longrightarrow> slots_ok w'"
proof (induction es arbitrary: w)
  case Nil
  then show ?case by simp
next
  case (Cons e es)
  from Cons.prems(2) obtain w1 where "wstep fl e w = Inr w1" and "wrun fl es w1 = Inr w'"
    by (rule wrun_Cons_Inr)
  with Cons.IH Cons.prems(1) show ?case
    by (blast intro: wstep_slots_ok)
qed

lemma new_worker_slots_ok: "slots_ok (new_worker fl st thread_num)"
  by (simp add: slots_ok_def new_worker_def new_Ctx_def)

lemma of_nat_nat_sint: "0 \<le> sint (a::int32) \<Longrightarrow> of_nat (nat (sint a)) = a"
  by simp

lemma object_request_eq:
  assumes "loop_ok fl st thread_num w"
  shows "object_request fl w = request_of fl st thread_num (nat (sint (ii w)))"
  using assms
  by (cases st)
     (simp_all add: loop_ok_def object_request_def request_of_def GetObjPrefix_def object_key_def)

lemma driver_step_loop_ok:
  assumes "loop_ok fl st thread_num w" and "driver_step fl w = Inr w'"
  shows "loop_ok fl st thread_num w'"
  using assms(2)
proof (cases rule: driver_step_cases)
  case take
  from take(2) obtain c where "w' = w\<lparr>ctx := c, wpc := Submit\<rparr>"
    by (rule take_slot_Inr)
  with take(1,3) assms(1) show ?thesis by (auto simp: loop_ok_def)
next
  case wait
  with assms(1) show ?thesis by (simp add: loop_ok_def)
next
  case leave
  with assms(1) show ?thesis by (simp add: loop_ok_def)
next
  case submit
  from assms(1) submit(1) have lt: "ii w <s FLAGS_num_objects fl"
    by (simp add: loop_ok_def)
  have s: "sint (ii w + 1) = sint (ii w) + 1" by (rule sint_succ [OF lt])
  from assms(1) have nn: "0 \<le> sint (ii w)" by (simp add: loop_ok_def)
  then have n: "nat (sint (ii w) + 1) = Suc (nat (sint (ii w)))" by simp
  from lt have le: "sint (ii w) + 1 \<le> max 0 (sint (FLAGS_num_objects fl))"
    by (simp add: word_sless_alt)
  from assms(1) have sub: "submitted w = map (request_of fl st thread_num) [0..<nat (sint (ii w))]"
    and m: "mode w = st" and p: "obj_name_prefix w = GetObjPrefix fl thread_num"
    by (simp_all add: loop_ok_def)
  show ?thesis
    unfolding loop_ok_def submit(2)
    using s n nn le sub m p object_request_eq [OF assms(1)] by simp
next
  case drain
  with assms(1) show ?thesis by (auto simp: loop_ok_def wait_all_def)
next
  case returned
  with assms(1) show ?thesis by simp
qed



lemma callback_loop_ok:
  assumes "loop_ok fl st thread_num w" and "callback handler w = Inr w'"
  shows "loop_ok fl st thread_num w'"
  using assms(2)
proof (cases rule: callback_Inr)
  case 1
  with assms(1) show ?thesis by simp
next
  case (2 c)
  with assms(1) show ?thesis by (simp add: loop_ok_def)
qed

lemma wstep_loop_ok:
  assumes "loop_ok fl st thread_num w" and "wstep fl e w = Inr w'"
  shows "loop_ok fl st thread_num w'"
proof (cases e)
  case Driver
  with assms show ?thesis by (simp add: wstep_def driver_step_loop_ok)
next
  case (PutDone oc)
  with assms show ?thesis
    by (cases "mode w = UPLOAD") (simp_all add: wstep_def callback_loop_ok)
next
  case (GetDone oc)
  with assms show ?thesis
    by (cases "mode w = DOWNLOAD") (simp_all add: wstep_def callback_loop_ok)
qed

lemma wrun_loop_ok:
  "loop_ok fl st thread_num w \<Longrightarrow> wrun fl es w = Inr w' \<Longrightarrow> loop_ok fl st thread_num w'"
proof (induction es arbitrary: w)
  case Nil
  then show ?case by simp
next
  case (Cons e es)
  from Cons.prems(2) obtain w1 where "wstep fl e w = Inr w1" and "wrun fl es w1 = Inr w'"
    by (rule wrun_Cons_Inr)
  with Cons.IH Cons.prems(1) show ?case
    by (blast intro: wstep_loop_ok)
qed

lemma new_worker_loop_ok: "loop_ok fl st thread_num (new_worker fl st thread_num)"
  by (simp add: loop_ok_def new_worker_def)

lemma sint_zero_iff: "sint (a::int32) = 0 \<longleftrightarrow> a = 0"
  by (rule signed_eq_0_iff)

lemma wstep_wpc_callback:
  assumes "wstep fl e w = Inr w'" and "e \<noteq> Driver"
  shows "wpc w' = wpc w"
proof (cases e)
  case Driver
  with assms show ?thesis by simp
next
  case (PutDone oc)
  with assms(1) show ?thesis
    by (cases "mode w = UPLOAD") (auto simp: wstep_def elim!: callback_Inr)
next
  case (GetDone oc)
  with assms(1) show ?thesis
    by (cases "mode w = DOWNLOAD") (auto simp: wstep_def elim!: callback_Inr)
qed

lemma wstep_to_Returned:
  assumes "slots_ok w" and "wstep fl e w = Inr w'" and "wpc w' = Returned"
  shows "num_outstanding_req (ctx w) = 0 \<and> pending w = 0 \<and>
         (wpc w = Drain \<or> wpc w = DrainWait \<or> wpc w = Returned)"
proof (cases "e = Driver")
  case True
  with assms(2) have "driver_step fl w = Inr w'" by (simp add: wstep_def)
  then show ?thesis
  proof (cases rule: driver_step_cases)
    case take
    from take(2) assms(3) show ?thesis by (auto elim!: take_slot_Inr)
  next
    case wait
    with assms(3) show ?thesis by simp
  next
    case leave
    with assms(3) show ?thesis by simp
  next
    case submit
    with assms(3) show ?thesis by simp
  next
    case drain
    from drain assms(3) have "\<not> 0 < sint (num_outstanding_req (ctx w))"
      by (auto simp: wait_all_def WaitAll_test_def word_sless_alt split: if_splits)
    moreover from assms(1) drain(1)
    have "sint (num_outstanding_req (ctx w)) = int (pending w)"
      by (auto simp: slots_ok_def)
    ultimately have "pending w = 0" and "sint (num_outstanding_req (ctx w)) = 0"
      by simp_all
    moreover from drain(1) have "wpc w = Drain \<or> wpc w = DrainWait \<or> wpc w = Returned"
      by blast
    ultimately show ?thesis by (simp add: sint_zero_iff)
  next
    case returned
    with assms(1) have "pending w = 0" and "sint (num_outstanding_req (ctx w)) = 0"
      by (simp_all add: slots_ok_def)
    with returned(1) show ?thesis by (simp add: sint_zero_iff)
  qed
next
  case False
  with assms(2) have "wpc w' = wpc w" by (rule wstep_wpc_callback)
  with assms(3) have r: "wpc w = Returned" by simp
  with assms(1) have "pending w = 0" and "sint (num_outstanding_req (ctx w)) = 0"
    by (simp_all add: slots_ok_def)
  with r show ?thesis by (simp add: sint_zero_iff)
qed

lemma loop_ok_left:
  assumes "loop_ok fl st thread_num w"
    and "wpc w = Drain \<or> wpc w = DrainWait \<or> wpc w = Returned"
  shows "length (submitted w) = nat (sint (FLAGS_num_objects fl))"
proof -
  from assms have a: "\<not> sint (ii w) < sint (FLAGS_num_objects fl)"
    and b: "sint (ii w) \<le> max 0 (sint (FLAGS_num_objects fl))"
    and c: "0 \<le> sint (ii w)"
    and d: "length (submitted w) = nat (sint (ii w))"
    by (auto simp: loop_ok_def word_sless_alt)
  from a b c have "nat (sint (ii w)) = nat (sint (FLAGS_num_objects fl))"
    by (auto simp: max_def split: if_splits)
  with d show ?thesis by simp
qed

section \<open>A limit that is not positive; the submitted requests\<close>

lemma take_slot_never:
  assumes "FLAGS_num_outstanding_req fl \<le>s 0" and "num_outstanding_req (ctx w) = 0"
  shows "take_slot fl w =
     Inl ([AssertMsg ''num_outstanding_req_ < FLAGS_num_outstanding_req''], Abort)"
  using assms by (simp add: take_slot_def GetAvailableSlot_take_def word_sless_alt word_sle_eq)

lemma wstep_never_taken:
  assumes "FLAGS_num_outstanding_req fl \<le>s 0" and "never_taken w" and "wstep fl e w = Inr w'"
  shows "never_taken w'"
proof (cases "e = Driver")
  case True
  with assms(3) have "driver_step fl w = Inr w'" by (simp add: wstep_def)
  then show ?thesis
  proof (cases rule: driver_step_cases)
    case take
    from assms(2) have "num_outstanding_req (ctx w) = 0" by (simp add: never_taken_def)
    from take_slot_never [OF assms(1) this] take(2) show ?thesis by simp
  next
    case wait
    with assms(2) show ?thesis by (simp add: never_taken_def)
  next
    case leave
    with assms(2) show ?thesis by (simp add: never_taken_def)
  next
    case submit
    with assms(2) show ?thesis by (simp add: never_taken_def)
  next
    case drain
    with assms(2) show ?thesis by (auto simp: never_taken_def wait_all_def)
  next
    case returned
    with assms(2) show ?thesis by simp
  qed
next
  case False
  from assms(2) have p: "pending w = 0" by (simp add: never_taken_def)
  have "w' = w"
  proof (cases e)
    case Driver
    with False show ?thesis by simp
  next
    case (PutDone oc)
    with assms(3) p show ?thesis
      by (cases "mode w = UPLOAD") (simp_all add: wstep_def callback_def)
  next
    case (GetDone oc)
    with assms(3) p show ?thesis
      by (cases "mode w = DOWNLOAD") (simp_all add: wstep_def callback_def)
  qed
  with assms(2) show ?thesis by simp
qed

lemma wrun_never_taken:
  "FLAGS_num_outstanding_req fl \<le>s 0 \<Longrightarrow> never_taken w \<Longrightarrow> wrun fl es w = Inr w' \<Longrightarrow>
   never_taken w'"
proof (induction es arbitrary: w)
  case Nil
  then show ?case by simp
next
  case (Cons e es)
  from Cons.prems(3) obtain w1 where "wstep fl e w = Inr w1" and "wrun fl es w1 = Inr w'"
    by (rule wrun_Cons_Inr)
  with Cons.IH Cons.prems(1,2) show ?case
    by (blast intro: wstep_never_taken)
qed

lemma new_worker_never_taken: "never_taken (new_worker fl st thread_num)"
  by (simp add: never_taken_def new_worker_def new_Ctx_def)

lemma startup_flags:
  "FLAGS (main_step elapsed (initial fl)) =
     (if FLAGS_num_outstanding_req fl \<le>s 0
      then fl\<lparr>FLAGS_num_outstanding_req := FLAGS_num_connections fl\<rparr> else fl)"
  by (simp add: main_step_def initial_def)

lemma loop_ok_keys:
  assumes "loop_ok fl st thread_num w"
  shows "map Key (submitted w) =
    map (\<lambda>k. object_key (FLAGS_prefix fl) thread_num (of_nat k)) [0..<length (submitted w)]"
proof -
  from assms have "submitted w = map (request_of fl st thread_num) [0..<nat (sint (ii w))]"
    by (simp add: loop_ok_def)
  moreover have "Key (request_of fl st thread_num k) =
      object_key (FLAGS_prefix fl) thread_num (of_nat k)" for k
    by (cases st) (simp_all add: request_of_def)
  ultimately show ?thesis by simp
qed

lemma loop_ok_length:
  assumes "loop_ok fl st thread_num w"
  shows "length (submitted w) \<le> nat (sint (FLAGS_num_objects fl))"
proof -
  from assms have "sint (ii w) \<le> max 0 (sint (FLAGS_num_objects fl))"
    and "length (submitted w) = nat (sint (ii w))"
    by (simp_all add: loop_ok_def)
  then show ?thesis by (auto simp: max_def split: if_splits)
qed

lemma loop_ok_requests:
  assumes "loop_ok fl st thread_num w"
  shows "submitted w =
    map (\<lambda>k. (case st of UPLOAD \<Rightarrow> PutObjectRequest | DOWNLOAD \<Rightarrow> GetObjectRequest)
               (FLAGS_bucket_name fl) (object_key (FLAGS_prefix fl) thread_num (of_nat k)))
      [0..<length (submitted w)]"
proof -
  from assms have "submitted w = map (request_of fl st thread_num) [0..<nat (sint (ii w))]"
    by (simp add: loop_ok_def)
  moreover have "request_of fl st thread_num =
      (\<lambda>k. (case st of UPLOAD \<Rightarrow> PutObjectRequest | DOWNLOAD \<Rightarrow> GetObjectRequest)
                      (FLAGS_bucket_name fl) (object_key (FLAGS_prefix fl) thread_num (of_nat k)))"
    by (cases st) (simp_all add: request_of_def fun_eq_iff)
  ultimately show ?thesis by simp
qed

section \<open>The main thread and the output\<close>





lemma run_invariant:
  assumes "P s" and "\<And>e s. P s \<Longrightarrow> P (step elapsed e s)"
  shows "P (run elapsed es s)"
  using assms(1)
proof (induction es arbitrary: s)
  case Nil
  then show ?case by simp
next
  case (Cons e es)
  from Cons.prems have "P (step elapsed e s)" by (rule assms(2))
  then have "P (run elapsed es (step elapsed e s))" by (rule Cons.IH)
  then show ?case by simp
qed

lemma run_halted: "status s \<noteq> Running \<Longrightarrow> run elapsed es s = s"
  by (induction es) (simp_all add: step_def)


lemma thread_step_cases:
  assumes "status s = Running"
  obtains (idle) "step elapsed (Thread k we) s = s"
  | (move) w where "k < length (threads s)" and "wstep (FLAGS s) we (threads s ! k) = Inr w"
      and "step elapsed (Thread k we) s = s\<lparr>threads := (threads s)[k := w]\<rparr>"
  | (halt) msg h where "k < length (threads s)"
      and "wstep (FLAGS s) we (threads s ! k) = Inl (msg, h)"
      and "step elapsed (Thread k we) s = s\<lparr>err := err s @ msg, status := Halted h\<rparr>"
proof (cases "k < length (threads s)")
  case False
  with assms have "step elapsed (Thread k we) s = s" by (simp add: step_def)
  then show thesis by (rule idle)
next
  case True
  show thesis
  proof (cases "wstep (FLAGS s) we (threads s ! k)")
    case (Inl a)
    obtain msg h where a: "a = (msg, h)" by (cases a)
    with Inl True assms
    have "step elapsed (Thread k we) s = s\<lparr>err := err s @ msg, status := Halted h\<rparr>"
      by (simp add: step_def)
    with True Inl a show thesis by (intro halt) simp_all
  next
    case (Inr w)
    with True assms have "step elapsed (Thread k we) s = s\<lparr>threads := (threads s)[k := w]\<rparr>"
      by (simp add: step_def)
    with True Inr show thesis by (intro move) simp_all
  qed
qed

lemma step_Main: "status s = Running \<Longrightarrow> step elapsed Main s = main_step elapsed s"
  by (simp add: step_def)

lemma step_not_Running: "status s \<noteq> Running \<Longrightarrow> step elapsed e s = s"
  by (simp add: step_def)






lemma normalised_simps [simp]:
  "FLAGS_count (normalised fl) = FLAGS_count fl"
  "FLAGS_stage (normalised fl) = FLAGS_stage fl"
  "FLAGS_num_threads (normalised fl) = FLAGS_num_threads fl"
  "FLAGS_num_objects (normalised fl) = FLAGS_num_objects fl"
  "FLAGS_obj_size_kb (normalised fl) = FLAGS_obj_size_kb fl"
  "FLAGS_prefix (normalised fl) = FLAGS_prefix fl"
  "FLAGS_bucket_name (normalised fl) = FLAGS_bucket_name fl"
  "FLAGS_num_connections (normalised fl) = FLAGS_num_connections fl"
  by (simp_all add: normalised_def)

lemma stage_selected_normalised [simp]:
  "stage_selected (normalised fl) st = stage_selected fl st"
  by (cases st) simp_all

lemma reports_normalised [simp]:
  "stage_report (normalised fl) st = stage_report fl st"
  "iteration_report (normalised fl) st iteration = iteration_report fl st iteration"
  by (simp_all add: stage_report_def iteration_report_def)

lemma stage_out_normalised [simp]:
  "stage_out (normalised fl) elapsed st = stage_out fl elapsed st"
  by (simp add: stage_out_def iterations_out_def iteration_out_def)

lemma main_step_initial:
  "main_step elapsed (initial fl) =
     \<lparr>FLAGS = normalised fl, mpc = StageIf UPLOAD, threads = [], out = [], err = [],
      status = Running\<rparr>"
  by (simp add: main_step_def initial_def normalised_def Let_def)

lemma step_initial:
  "step elapsed e (initial fl) = initial fl \<or>
   step elapsed e (initial fl) = main_step elapsed (initial fl)"
  by (cases e) (simp_all add: step_def initial_def)

lemma main_step_FLAGS:
  assumes "mpc s \<noteq> Start"
  shows "FLAGS (main_step elapsed s) = FLAGS s \<and> mpc (main_step elapsed s) \<noteq> Start"
proof -
  have e: "FLAGS (stage_end st t) = FLAGS t \<and> mpc (stage_end st t) \<noteq> Start" for st t
    by (cases st) simp_all
  show ?thesis
  proof (cases "mpc s")
    case Start
    with assms show ?thesis by simp
  next
    case (StageIf st)
    with e [of st s] show ?thesis
      by (cases "stage_selected (FLAGS s) st") (simp_all add: main_step_def Let_def)
  next
    case (IterFor st iteration)
    with e [of st "s\<lparr>out := out s @ ReportDuration_dtor (stage_report (FLAGS s) st)
                                      (elapsed (operation (stage_report (FLAGS s) st)))\<rparr>"]
    show ?thesis
      by (cases "iteration \<le>s FLAGS_count (FLAGS s)") (simp_all add: main_step_def Let_def)
  next
    case (SpawnFor st iteration i)
    then show ?thesis by (simp add: main_step_def Let_def)
  next
    case (JoinFor st iteration i)
    then show ?thesis by (simp add: main_step_def Let_def)
  next
    case Finished
    then show ?thesis by (simp add: main_step_def Let_def)
  qed
qed

lemma step_FLAGS:
  assumes "mpc s \<noteq> Start"
  shows "FLAGS (step elapsed e s) = FLAGS s \<and> mpc (step elapsed e s) \<noteq> Start"
proof (cases "status s = Running")
  case False
  with assms show ?thesis by (simp add: step_not_Running)
next
  case True
  show ?thesis
  proof (cases e)
    case Main
    with True main_step_FLAGS [OF assms, of elapsed] show ?thesis by (simp add: step_Main)
  next
    case (Thread k we)
    from True show ?thesis
      by (cases rule: thread_step_cases [where k = k and we = we and elapsed = elapsed])
         (use assms Thread in simp_all)
  qed
qed

lemma run_flags:
  "run elapsed es (initial fl) = initial fl \<or>
   mpc (run elapsed es (initial fl)) \<noteq> Start \<and> FLAGS (run elapsed es (initial fl)) = normalised fl"
proof (rule run_invariant
    [where P = "\<lambda>s. s = initial fl \<or> mpc s \<noteq> Start \<and> FLAGS s = normalised fl"])
  show "initial fl = initial fl \<or> mpc (initial fl) \<noteq> Start \<and> FLAGS (initial fl) = normalised fl"
    by simp
next
  fix e s
  assume "s = initial fl \<or> mpc s \<noteq> Start \<and> FLAGS s = normalised fl"
  then show "step elapsed e s = initial fl \<or>
      mpc (step elapsed e s) \<noteq> Start \<and> FLAGS (step elapsed e s) = normalised fl"
  proof
    assume "s = initial fl"
    with step_initial [of elapsed e fl] show ?thesis
      by (auto simp: main_step_initial)
  next
    assume "mpc s \<noteq> Start \<and> FLAGS s = normalised fl"
    with step_FLAGS [of s elapsed e] show ?thesis by simp
  qed
qed



text \<open>The equations that run a worker on concrete flags.\<close>

lemmas worker_exec =
  new_worker_def new_Ctx_def wstep_def driver_step_def take_slot_def wait_all_def callback_def
  GetAvailableSlot_full_def GetAvailableSlot_take_def ReleaseSlot_def WaitAll_test_def
  ObjUploadDone_def ObjDownloadDone_def object_request_def GetObjPrefix_def to_string_def
  digits.simps word_sless_alt word_sle_eq

section \<open>Runs of the process\<close>

lemmas process_exec =
  step_def main_step_def Let_def initial_def stage_end.simps stage_selected.simps joined_def
  stage_report_def iteration_report_def ReportDuration_ctor_def ReportDuration_dtor_def

lemma sint_mult_in_range:
  assumes "- (2 ^ 31) \<le> sint (a::int32) * sint b" and "sint a * sint b < 2 ^ 31"
  shows "sint (a * b) = sint a * sint b"
  using assms by (simp add: sint_word_ariths signed_take_bit_int_eq_self)

lemma run_started_FLAGS:
  assumes "mpc (run elapsed es (initial fl)) \<noteq> Start"
  shows "FLAGS (run elapsed es (initial fl)) = normalised fl"
  using run_flags [of elapsed es fl] assms by (auto simp: initial_def)

lemma sint_kb_bytes:
  assumes "- (2 ^ 31) \<le> sint (kb::int32) * 1024" and "sint kb * 1024 < 2 ^ 31"
  shows "sint (kb * 1024) = sint kb * 1024"
  using sint_mult_in_range [of kb 1024] assms by simp

lemma run_halting_step:
  assumes "status s = Running" and "k < length (threads s)"
    and "wstep (FLAGS s) we (threads s ! k) = Inl (msg, h)"
  shows "run elapsed (Thread k we # es) s = s\<lparr>err := err s @ msg, status := Halted h\<rparr>"
proof -
  from assms have "step elapsed (Thread k we) s = s\<lparr>err := err s @ msg, status := Halted h\<rparr>"
    by (simp add: step_def)
  then show ?thesis by (simp add: run_halted)
qed




section \<open>The threads of the process\<close>

lemma wrun_snoc:
  assumes "wrun fl es w = Inr w1" and "wstep fl e w1 = Inr w2"
  shows "wrun fl (es @ [e]) w = Inr w2"
  using assms by (induction es arbitrary: w) (auto split: sum.splits)





lemma main_step_threads:
  "threads (main_step elapsed s) = threads s \<or> threads (main_step elapsed s) = [] \<or>
   (\<exists>st i. threads (main_step elapsed s) = threads s @ [new_worker (FLAGS s) st i])"
proof -
  have e: "threads (stage_end st t) = threads t" for st t
    by (cases st) simp_all
  show ?thesis
    by (cases "mpc s") (auto simp: main_step_def Let_def e)
qed

lemma step_workers_ok:
  assumes "workers_ok fl s"
  shows "workers_ok fl (step elapsed e s)"
proof (cases "status s = Running")
  case False
  with assms show ?thesis by (simp add: step_not_Running)
next
  case True
  from assms have reach: "\<And>w. w \<in> set (threads s) \<Longrightarrow> \<exists>st i wes.
          wrun (normalised fl) wes (new_worker (normalised fl) st i) = Inr w"
    by (simp add: workers_ok_def)
  show ?thesis
  proof (cases "s = initial fl")
    case init: True
    from step_initial [of elapsed e fl] show ?thesis
    proof
      assume "step elapsed e (initial fl) = initial fl"
      with assms init show ?thesis by simp
    next
      assume "step elapsed e (initial fl) = main_step elapsed (initial fl)"
      with init show ?thesis by (simp add: main_step_initial workers_ok_def)
    qed
  next
    case False
    with assms have fl: "FLAGS s = normalised fl" and pc: "mpc s \<noteq> Start \<or> FLAGS s = normalised fl"
      by (simp_all add: workers_ok_def)
    show ?thesis
    proof (cases e)
      case Main
      have f: "FLAGS (main_step elapsed s) = normalised fl"
      proof (cases "mpc s = Start")
        case True
        with fl show ?thesis
          by (simp add: main_step_def Let_def normalised_def)
      next
        case False
        with main_step_FLAGS [of s elapsed] fl show ?thesis by simp
      qed
      let ?R = "\<lambda>w. \<exists>st i wes.
          wrun (normalised fl) wes (new_worker (normalised fl) st i) = Inr w"
      have new: "?R (new_worker (normalised fl) st i)" for st i
      proof -
        have "wrun (normalised fl) [] (new_worker (normalised fl) st i) =
            Inr (new_worker (normalised fl) st i)"
          by simp
        then show ?thesis by blast
      qed
      have "\<forall>w \<in> set (threads (main_step elapsed s)). ?R w"
        using main_step_threads [of elapsed s]
      proof (elim disjE exE)
        assume "threads (main_step elapsed s) = threads s"
        with reach show ?thesis by simp
      next
        assume "threads (main_step elapsed s) = []"
        then show ?thesis by simp
      next
        fix st i
        assume "threads (main_step elapsed s) = threads s @ [new_worker (FLAGS s) st i]"
        with reach new [of st i] fl show ?thesis by auto
      qed
      with f Main True show ?thesis by (simp add: workers_ok_def step_Main)
    next
      case (Thread k we)
      from True show ?thesis
      proof (cases rule: thread_step_cases [where k = k and we = we and elapsed = elapsed])
        case idle
        with assms Thread show ?thesis by simp
      next
        case (move w)
        from move(1) have "threads s ! k \<in> set (threads s)" by simp
        from reach [OF this] obtain st i wes where
          "wrun (normalised fl) wes (new_worker (normalised fl) st i) = Inr (threads s ! k)"
          by blast
        with move(2) fl have "wrun (normalised fl) (wes @ [we]) (new_worker (normalised fl) st i) = Inr w"
          by (simp add: wrun_snoc)
        then have w: "\<exists>st i wes. wrun (normalised fl) wes (new_worker (normalised fl) st i) = Inr w"
          by blast
        have "set ((threads s)[k := w]) \<subseteq> insert w (set (threads s))"
          by (rule set_update_subset_insert)
        with reach w have "\<forall>v \<in> set ((threads s)[k := w]). \<exists>st i wes.
          wrun (normalised fl) wes (new_worker (normalised fl) st i) = Inr v"
          by blast
        with move(3) fl Thread show ?thesis by (simp add: workers_ok_def)
      next
        case (halt msg h)
        with assms fl Thread show ?thesis by (simp add: workers_ok_def)
      qed
    qed
  qed
qed

lemma threads_reachable:
  assumes "w \<in> set (threads (run elapsed es (initial fl)))"
  shows "\<exists>st i wes. wrun (normalised fl) wes (new_worker (normalised fl) st i) = Inr w"
proof -
  have "workers_ok fl (run elapsed es (initial fl))"
  proof (rule run_invariant [where P = "workers_ok fl"])
    show "workers_ok fl (initial fl)" by (simp add: workers_ok_def initial_def)
  qed (rule step_workers_ok)
  with assms show ?thesis by (simp add: workers_ok_def)
qed

section \<open>Every stage can be completed\<close>



















section \<open>The stage tests\<close>







section \<open>The length check of a download\<close>

text \<open>What the download handler does with a successful completion, the expected length
  being the product as the code computes it in \<^verbatim>\<open>int\<close>: on any other length the line
  \<^verbatim>\<open>ERROR: invalid object size <actual>, expected <expected> bytes\<close> goes to standard
  error and the process ends at once with exit status 1.\<close>

lemma download_length_checked_in_int:
  assumes "status s = Running" and "k < length (threads s)"
    and "mode (threads s ! k) = DOWNLOAD" and "0 < pending (threads s ! k)"
    and "sint (ContentLength result) \<noteq> sint (FLAGS_obj_size_kb (FLAGS s) * 1024)"
  shows "ObjDownloadDone (FLAGS s) (Success any) c =
           (if sint (ContentLength any) = sint (FLAGS_obj_size_kb (FLAGS s) * 1024)
            then ReleaseSlot c
            else Inl ([Str ''ERROR: invalid object size '', Num (sint (ContentLength any)),
                       Str '', expected '', Num (sint (FLAGS_obj_size_kb (FLAGS s) * 1024)),
                       Str '' bytes'', Endl], Exit 1)) \<and>
         run elapsed (Thread k (GetDone (Success result)) # es) s =
           s\<lparr>err := err s @
                  [Str ''ERROR: invalid object size '', Num (sint (ContentLength result)),
                   Str '', expected '', Num (sint (FLAGS_obj_size_kb (FLAGS s) * 1024)),
                   Str '' bytes'', Endl],
             status := Halted (Exit 1)\<rparr> \<and>
         (- (2 ^ 31) \<le> sint (FLAGS_obj_size_kb (FLAGS s)) * 1024 \<and>
          sint (FLAGS_obj_size_kb (FLAGS s)) * 1024 < 2 ^ 31 \<longrightarrow>
            sint (FLAGS_obj_size_kb (FLAGS s) * 1024) = sint (FLAGS_obj_size_kb (FLAGS s)) * 1024)"
proof -
  have h: "ObjDownloadDone (FLAGS s) (Success any) c =
           (if sint (ContentLength any) = sint (FLAGS_obj_size_kb (FLAGS s) * 1024)
            then ReleaseSlot c
            else Inl ([Str ''ERROR: invalid object size '', Num (sint (ContentLength any)),
                       Str '', expected '', Num (sint (FLAGS_obj_size_kb (FLAGS s) * 1024)),
                       Str '' bytes'', Endl], Exit 1))" for any c
    by (simp add: ObjDownloadDone_def)
  from assms(3,4,5) have "wstep (FLAGS s) (GetDone (Success result)) (threads s ! k) =
      Inl ([Str ''ERROR: invalid object size '', Num (sint (ContentLength result)),
            Str '', expected '', Num (sint (FLAGS_obj_size_kb (FLAGS s) * 1024)),
            Str '' bytes'', Endl], Exit 1)"
    by (simp add: wstep_def callback_def h)
  from run_halting_step [OF assms(1,2) this] h sint_kb_bytes [of "FLAGS_obj_size_kb (FLAGS s)"]
  show ?thesis by simp
qed

section \<open>The claims\<close>

text \<open>Four of the claims are about one worker, started by \<open>new_worker\<close> and run by
  \<open>wrun\<close> under flags of any kind.  By \<open>threads_reachable\<close> every thread of every state
  of the process is such a worker, under the flags as they are after the start-up step.\<close>

text \<open>
  C1.  With a configured maximum \<open>m > 0\<close>, in every state a worker can reach, under any
  interleaving of its driver thread with the completion handlers, the outstanding count
  of its slot limiter is at least 0 and at most \<open>m\<close>.  A step leaves the count alone,
  or it is the increment of \<^verbatim>\<open>GetAvailableSlot\<close>, taken from a count strictly below
  \<open>m\<close>, or the decrement of \<^verbatim>\<open>ReleaseSlot\<close>, taken from a strictly positive count.
\<close>

theorem slot_count_within_bounds:
  assumes "0 <s FLAGS_num_outstanding_req fl"
    and "wrun fl es (new_worker fl st thread_num) = Inr w"
    and "wstep fl e w = Inr w'"
  shows "0 \<le>s num_outstanding_req (ctx w) \<and>
         num_outstanding_req (ctx w) \<le>s FLAGS_num_outstanding_req fl \<and>
         (num_outstanding_req (ctx w') = num_outstanding_req (ctx w) \<or>
          num_outstanding_req (ctx w) <s FLAGS_num_outstanding_req fl \<and>
            num_outstanding_req (ctx w') = num_outstanding_req (ctx w) + 1 \<or>
          0 <s num_outstanding_req (ctx w) \<and>
            num_outstanding_req (ctx w') = num_outstanding_req (ctx w) - 1)"
proof -
  have "count_ok fl w"
    using new_worker_count_ok [OF assms(1)] assms(2) by (rule wrun_count_ok)
  then have bounds: "0 \<le>s num_outstanding_req (ctx w) \<and>
      num_outstanding_req (ctx w) \<le>s FLAGS_num_outstanding_req fl"
    by (simp add: count_ok_def word_sle_eq)
  from wstep_count [OF assms(3)]
  have "num_outstanding_req (ctx w') = num_outstanding_req (ctx w) \<or>
        num_outstanding_req (ctx w) <s FLAGS_num_outstanding_req fl \<and>
          num_outstanding_req (ctx w') = num_outstanding_req (ctx w) + 1 \<or>
        0 <s num_outstanding_req (ctx w) \<and>
          num_outstanding_req (ctx w') = num_outstanding_req (ctx w) - 1"
    by (auto dest: GetAvailableSlot_take_word ReleaseSlot_word)
  with bounds show ?thesis by simp
qed

text \<open>A worker with two slots takes one, submits its first object and sees it complete.\<close>

theorem slot_count_within_bounds_witness:
  "0 <s FLAGS_num_outstanding_req (default_flags\<lparr>FLAGS_num_outstanding_req := 2\<rparr>) \<and>
   wrun (default_flags\<lparr>FLAGS_num_outstanding_req := 2\<rparr>) [Driver, Driver]
     (new_worker (default_flags\<lparr>FLAGS_num_outstanding_req := 2\<rparr>) UPLOAD 0) =
     Inr \<lparr>mode = UPLOAD, obj_name_prefix = ''obj/0_'', ii = 1,
          ctx = \<lparr>num_outstanding_req = 1\<rparr>, wpc = ForTest,
          submitted = [PutObjectRequest ''ltsstest'' ''obj/0_0''], pending = 1, released = 0\<rparr> \<and>
   wstep (default_flags\<lparr>FLAGS_num_outstanding_req := 2\<rparr>) (PutDone (Success ()))
     \<lparr>mode = UPLOAD, obj_name_prefix = ''obj/0_'', ii = 1,
      ctx = \<lparr>num_outstanding_req = 1\<rparr>, wpc = ForTest,
      submitted = [PutObjectRequest ''ltsstest'' ''obj/0_0''], pending = 1, released = 0\<rparr> =
     Inr \<lparr>mode = UPLOAD, obj_name_prefix = ''obj/0_'', ii = 1,
          ctx = \<lparr>num_outstanding_req = 0\<rparr>, wpc = ForTest,
          submitted = [PutObjectRequest ''ltsstest'' ''obj/0_0''], pending = 0, released = 1\<rparr> \<and>
   (0::int32) \<le>s 1 \<and> (1::int32) \<le>s 2 \<and> (0::int32) <s 1 \<and> (0::int32) = 1 - 1"
proof -
  let ?fl = "default_flags\<lparr>FLAGS_num_outstanding_req := 2\<rparr>"
  let ?w = "\<lparr>mode = UPLOAD, obj_name_prefix = ''obj/0_'', ii = 1,
      ctx = \<lparr>num_outstanding_req = 1\<rparr>, wpc = ForTest,
      submitted = [PutObjectRequest ''ltsstest'' ''obj/0_0''], pending = 1, released = 0\<rparr>"
  let ?w' = "\<lparr>mode = UPLOAD, obj_name_prefix = ''obj/0_'', ii = 1,
      ctx = \<lparr>num_outstanding_req = 0\<rparr>, wpc = ForTest,
      submitted = [PutObjectRequest ''ltsstest'' ''obj/0_0''], pending = 0, released = 1\<rparr>"
  have h1: "0 <s FLAGS_num_outstanding_req ?fl"
    by (simp add: default_flags_def word_sless_alt)
  have h2: "wrun ?fl [Driver, Driver] (new_worker ?fl UPLOAD 0) = Inr ?w"
    by (simp add: default_flags_def worker_exec)
  have h3: "wstep ?fl (PutDone (Success ())) ?w = Inr ?w'"
    by (simp add: worker_exec)
  from slot_count_within_bounds [OF h1 h2 h3] h1 h2 h3 show ?thesis
    by (simp add: word_sless_alt word_sle_eq)
qed


text \<open>
  C2.  Whenever a step of a worker ends with the driver returned from \<^verbatim>\<open>WaitAll\<close>, the
  outstanding count was exactly 0 before that step, no request was in flight, the loop
  had submitted all \<open>N = num_objects\<close> requests and \<open>N\<close> completion handlers had
  released their slot: \<^verbatim>\<open>WaitAll\<close> never returns while a request is outstanding.
\<close>

theorem WaitAll_returns_when_drained:
  assumes "wrun fl es (new_worker fl st thread_num) = Inr w"
    and "wstep fl e w = Inr w'"
    and "wpc w' = Returned"
  shows "num_outstanding_req (ctx w) = 0 \<and> pending w = 0 \<and>
         length (submitted w) = nat (sint (FLAGS_num_objects fl)) \<and>
         released w = nat (sint (FLAGS_num_objects fl))"
proof -
  have s: "slots_ok w"
    using new_worker_slots_ok assms(1) by (rule wrun_slots_ok)
  have l: "loop_ok fl st thread_num w"
    using new_worker_loop_ok assms(1) by (rule wrun_loop_ok)
  from wstep_to_Returned [OF s assms(2,3)]
  have z: "num_outstanding_req (ctx w) = 0" and p: "pending w = 0"
    and pc: "wpc w = Drain \<or> wpc w = DrainWait \<or> wpc w = Returned"
    by simp_all
  from loop_ok_left [OF l pc] have n: "length (submitted w) = nat (sint (FLAGS_num_objects fl))" .
  from s p have "released w = length (submitted w)" by (simp add: slots_ok_def)
  with z p n show ?thesis by simp
qed

text \<open>One object: the slot is taken, the request submitted, the loop left, the completion
  handled; only then does the next driver step return from \<^verbatim>\<open>WaitAll\<close>.\<close>

theorem WaitAll_returns_when_drained_witness:
  "wrun (default_flags\<lparr>FLAGS_num_objects := 1, FLAGS_num_outstanding_req := 25\<rparr>) [Driver, Driver, Driver, PutDone (Success ())]
     (new_worker (default_flags\<lparr>FLAGS_num_objects := 1, FLAGS_num_outstanding_req := 25\<rparr>) UPLOAD 0) =
     Inr \<lparr>mode = UPLOAD, obj_name_prefix = ''obj/0_'', ii = 1,
          ctx = \<lparr>num_outstanding_req = 0\<rparr>, wpc = Drain,
          submitted = [PutObjectRequest ''ltsstest'' ''obj/0_0''], pending = 0, released = 1\<rparr> \<and>
   wstep (default_flags\<lparr>FLAGS_num_objects := 1, FLAGS_num_outstanding_req := 25\<rparr>) Driver
     \<lparr>mode = UPLOAD, obj_name_prefix = ''obj/0_'', ii = 1,
      ctx = \<lparr>num_outstanding_req = 0\<rparr>, wpc = Drain,
      submitted = [PutObjectRequest ''ltsstest'' ''obj/0_0''], pending = 0, released = 1\<rparr> =
     Inr \<lparr>mode = UPLOAD, obj_name_prefix = ''obj/0_'', ii = 1,
          ctx = \<lparr>num_outstanding_req = 0\<rparr>, wpc = Returned,
          submitted = [PutObjectRequest ''ltsstest'' ''obj/0_0''], pending = 0, released = 1\<rparr> \<and>
   length [PutObjectRequest ''ltsstest'' ''obj/0_0''] = nat (sint (1::int32)) \<and>
   (1::nat) = nat (sint (1::int32))"
proof -
  let ?fl = "default_flags\<lparr>FLAGS_num_objects := 1, FLAGS_num_outstanding_req := 25\<rparr>"
  let ?w = "\<lparr>mode = UPLOAD, obj_name_prefix = ''obj/0_'', ii = 1,
      ctx = \<lparr>num_outstanding_req = 0\<rparr>, wpc = Drain,
      submitted = [PutObjectRequest ''ltsstest'' ''obj/0_0''], pending = 0, released = 1\<rparr>"
  let ?w' = "\<lparr>mode = UPLOAD, obj_name_prefix = ''obj/0_'', ii = 1,
      ctx = \<lparr>num_outstanding_req = 0\<rparr>, wpc = Returned,
      submitted = [PutObjectRequest ''ltsstest'' ''obj/0_0''], pending = 0, released = 1\<rparr>"
  have h1: "wrun ?fl [Driver, Driver, Driver, PutDone (Success ())] (new_worker ?fl UPLOAD 0) = Inr ?w"
    by (simp add: default_flags_def worker_exec)
  have h2: "wstep ?fl Driver ?w = Inr ?w'"
    by (simp add: worker_exec)
  have h3: "wpc ?w' = Returned" by simp
  from WaitAll_returns_when_drained [OF h1 h2 h3] h1 h2 show ?thesis
    by (simp add: default_flags_def)
qed


text \<open>
  C6.  The key of an object is the function \<open>object_key\<close> of prefix, worker id and object
  index, namely prefix, worker id, \<^verbatim>\<open>_\<close>, index.  In every state a worker reaches,
  for the upload driver and for the download driver alike, the requests it has submitted
  are those for the indices \<open>0, 1, \<dots>\<close> in this order, each under that key; there are
  never more than \<open>num_objects\<close> of them, and exactly \<open>num_objects\<close> once it has returned.
\<close>

theorem object_keys_submitted:
  assumes "wrun fl es (new_worker fl st thread_num) = Inr w"
  shows "object_key (FLAGS_prefix fl) thread_num i =
           FLAGS_prefix fl @ to_string thread_num @ ''_'' @ to_string i \<and>
         map Key (submitted w) =
           map (\<lambda>k. object_key (FLAGS_prefix fl) thread_num (of_nat k))
             [0..<length (submitted w)] \<and>
         submitted w =
           map (\<lambda>k. (case st of UPLOAD \<Rightarrow> PutObjectRequest | DOWNLOAD \<Rightarrow> GetObjectRequest)
                      (FLAGS_bucket_name fl) (object_key (FLAGS_prefix fl) thread_num (of_nat k)))
             [0..<length (submitted w)] \<and>
         length (submitted w) \<le> nat (sint (FLAGS_num_objects fl)) \<and>
         (wpc w = Returned \<longrightarrow> length (submitted w) = nat (sint (FLAGS_num_objects fl)))"
proof -
  have l: "loop_ok fl st thread_num w"
    using new_worker_loop_ok assms(1) by (rule wrun_loop_ok)
  have "wpc w = Returned \<longrightarrow> length (submitted w) = nat (sint (FLAGS_num_objects fl))"
    using loop_ok_left [OF l] by blast
  with loop_ok_keys [OF l] loop_ok_length [OF l] loop_ok_requests [OF l] show ?thesis
    by (simp add: object_key_def)
qed

text \<open>Worker 1 of a download stage with two objects per thread.\<close>

theorem object_keys_submitted_witness:
  "wrun (default_flags\<lparr>FLAGS_num_objects := 2, FLAGS_num_outstanding_req := 25\<rparr>)
     [Driver, Driver, Driver, Driver, Driver,
      GetDone (Success \<lparr>ContentLength = 1048576\<rparr>),
      GetDone (Success \<lparr>ContentLength = 1048576\<rparr>), Driver]
     (new_worker (default_flags\<lparr>FLAGS_num_objects := 2, FLAGS_num_outstanding_req := 25\<rparr>)
        DOWNLOAD 1) =
     Inr \<lparr>mode = DOWNLOAD, obj_name_prefix = ''obj/1_'', ii = 2,
          ctx = \<lparr>num_outstanding_req = 0\<rparr>, wpc = Returned,
          submitted = [GetObjectRequest ''ltsstest'' ''obj/1_0'',
                       GetObjectRequest ''ltsstest'' ''obj/1_1''],
          pending = 0, released = 2\<rparr> \<and>
   object_key ''obj/'' 1 7 = ''obj/1_7'' \<and>
   [''obj/1_0'', ''obj/1_1''] = map (\<lambda>k. object_key ''obj/'' 1 (of_nat k)) [0..<2] \<and>
   length [GetObjectRequest ''ltsstest'' ''obj/1_0'', GetObjectRequest ''ltsstest'' ''obj/1_1'']
     = nat (sint (2::int32))"
proof -
  let ?fl = "default_flags\<lparr>FLAGS_num_objects := 2, FLAGS_num_outstanding_req := 25\<rparr>"
  let ?w = "\<lparr>mode = DOWNLOAD, obj_name_prefix = ''obj/1_'', ii = 2,
          ctx = \<lparr>num_outstanding_req = 0\<rparr>, wpc = Returned,
          submitted = [GetObjectRequest ''ltsstest'' ''obj/1_0'',
                       GetObjectRequest ''ltsstest'' ''obj/1_1''],
          pending = 0, released = 2\<rparr>"
  have h: "wrun ?fl [Driver, Driver, Driver, Driver, Driver,
      GetDone (Success \<lparr>ContentLength = 1048576\<rparr>),
      GetDone (Success \<lparr>ContentLength = 1048576\<rparr>), Driver] (new_worker ?fl DOWNLOAD 1) = Inr ?w"
    by (simp add: default_flags_def worker_exec)
  have k: "object_key ''obj/'' 1 7 = ''obj/1_7''"
    by (simp add: object_key_def to_string_def digits.simps)
  have m: "[''obj/1_0'', ''obj/1_1''] = map (\<lambda>k. object_key ''obj/'' 1 (of_nat k)) [0..<2]"
    by (simp add: object_key_def to_string_def digits.simps numeral_2_eq_2)
  have l: "length [GetObjectRequest ''ltsstest'' ''obj/1_0'',
      GetObjectRequest ''ltsstest'' ''obj/1_1''] = nat (sint (2::int32))"
    by simp
  show ?thesis
    using object_keys_submitted [OF h, of 7] by (intro conjI h k m l)
qed

text \<open>
  C10.  When the configured maximum and the configured connection count are both at most 0,
  the flag is still at most 0 after the start-up step of \<^verbatim>\<open>main\<close>.  With an object to
  submit, the first step of a worker enters \<^verbatim>\<open>GetAvailableSlot\<close> with count 0 and
  goes to its \<^verbatim>\<open>wait\<close>.  In every state the worker reaches, the count is 0, nothing
  has been submitted, no slot is held, and taking a slot fails the assertion and aborts.
\<close>

theorem nonpositive_limit_never_acquires:
  assumes "FLAGS_num_outstanding_req fl \<le>s 0" and "FLAGS_num_connections fl \<le>s 0"
    and "fl' = FLAGS (main_step elapsed (initial fl))"
    and "0 <s FLAGS_num_objects fl"
    and "wrun fl' es (new_worker fl' st thread_num) = Inr w"
  shows "FLAGS_num_outstanding_req fl' \<le>s 0 \<and>
         wstep fl' Driver (new_worker fl' st thread_num) =
           Inr ((new_worker fl' st thread_num)\<lparr>wpc := SlotWait\<rparr>) \<and>
         num_outstanding_req (ctx w) = 0 \<and> submitted w = [] \<and> wpc w \<noteq> Submit \<and>
         take_slot fl' w =
           Inl ([AssertMsg ''num_outstanding_req_ < FLAGS_num_outstanding_req''], Abort)"
proof -
  from assms(1,3) have fl': "fl' = fl\<lparr>FLAGS_num_outstanding_req := FLAGS_num_connections fl\<rparr>"
    by (simp add: startup_flags)
  with assms(2) have m: "FLAGS_num_outstanding_req fl' \<le>s 0" by simp
  from fl' assms(4) have n: "0 <s FLAGS_num_objects fl'" by simp
  from m n have first: "wstep fl' Driver (new_worker fl' st thread_num) =
      Inr ((new_worker fl' st thread_num)\<lparr>wpc := SlotWait\<rparr>)"
    by (simp add: wstep_def driver_step_def new_worker_def new_Ctx_def GetAvailableSlot_full_def)
  have nt: "never_taken w"
    using m new_worker_never_taken assms(5) by (rule wrun_never_taken)
  then have z: "num_outstanding_req (ctx w) = 0" by (simp add: never_taken_def)
  from nt z m first take_slot_never [OF m z] show ?thesis
    by (simp add: never_taken_def)
qed

theorem nonpositive_limit_never_acquires_witness:
  "FLAGS_num_outstanding_req (default_flags\<lparr>FLAGS_num_connections := 0\<rparr>) \<le>s 0 \<and>
   FLAGS_num_connections (default_flags\<lparr>FLAGS_num_connections := 0\<rparr>) \<le>s 0 \<and>
   FLAGS (main_step (\<lambda>_. 1) (initial (default_flags\<lparr>FLAGS_num_connections := 0\<rparr>))) =
     default_flags\<lparr>FLAGS_num_connections := 0\<rparr> \<and>
   0 <s FLAGS_num_objects (default_flags\<lparr>FLAGS_num_connections := 0\<rparr>) \<and>
   wrun (default_flags\<lparr>FLAGS_num_connections := 0\<rparr>) [Driver]
     (new_worker (default_flags\<lparr>FLAGS_num_connections := 0\<rparr>) UPLOAD 0) =
     Inr ((new_worker (default_flags\<lparr>FLAGS_num_connections := 0\<rparr>) UPLOAD 0)\<lparr>wpc := SlotWait\<rparr>) \<and>
   take_slot (default_flags\<lparr>FLAGS_num_connections := 0\<rparr>)
     ((new_worker (default_flags\<lparr>FLAGS_num_connections := 0\<rparr>) UPLOAD 0)\<lparr>wpc := SlotWait\<rparr>) =
     Inl ([AssertMsg ''num_outstanding_req_ < FLAGS_num_outstanding_req''], Abort)"
proof -
  let ?fl = "default_flags\<lparr>FLAGS_num_connections := 0\<rparr>"
  have h1: "FLAGS_num_outstanding_req ?fl \<le>s 0" by (simp add: default_flags_def)
  have h2: "FLAGS_num_connections ?fl \<le>s 0" by (simp add: default_flags_def)
  have h3: "?fl = FLAGS (main_step (\<lambda>_. 1) (initial ?fl))"
    by (simp add: main_step_def initial_def default_flags_def)
  have h4: "0 <s FLAGS_num_objects ?fl" by (simp add: default_flags_def word_sless_alt)
  have h5: "wrun ?fl [Driver] (new_worker ?fl UPLOAD 0) =
      Inr ((new_worker ?fl UPLOAD 0)\<lparr>wpc := SlotWait\<rparr>)"
    by (simp add: default_flags_def worker_exec)
  from nonpositive_limit_never_acquires [OF h1 h2 h3 h4 h5] h1 h2 h3 [symmetric] h4 h5
  show ?thesis by simp
qed




text \<open>
  C4.  The download handler compares the content length, a 64-bit integer, with
  \<^verbatim>\<open>FLAGS_obj_size_kb * 1024\<close>, a product the code computes in \<^verbatim>\<open>int\<close>.  For an
  object size of 4194304 KB the object has 4294967296 bytes and the product wraps to 0: the
  handler accepts an empty object, and a download stage that is answered with an empty
  object ends with exit status 0 and nothing on standard error, while the right length is
  refused with \<^verbatim>\<open>expected 0 bytes\<close>.  For 2097152 KB the right length 2147483648 is
  refused with \<^verbatim>\<open>expected -2147483648 bytes\<close>.  So a length other than
  \<^verbatim>\<open>obj_size_kb * 1024\<close> can pass silently, and the right one can be fatal.
\<close>

theorem download_size_check_wraps:
  "sint (FLAGS_obj_size_kb huge_object_flags) * 1024 = 4294967296 \<and>
   ObjDownloadDone huge_object_flags (Success \<lparr>ContentLength = 0\<rparr>)
     \<lparr>num_outstanding_req = 1\<rparr> = Inr \<lparr>num_outstanding_req = 0\<rparr> \<and>
   status (run (\<lambda>_. 2) empty_object_schedule (initial huge_object_flags)) = Halted (Exit 0) \<and>
   err (run (\<lambda>_. 2) empty_object_schedule (initial huge_object_flags)) = [] \<and>
   ObjDownloadDone huge_object_flags (Success \<lparr>ContentLength = 4294967296\<rparr>)
     \<lparr>num_outstanding_req = 1\<rparr> =
     Inl ([Str ''ERROR: invalid object size '', Num 4294967296, Str '', expected '', Num 0,
           Str '' bytes'', Endl], Exit 1) \<and>
   ObjDownloadDone (huge_object_flags\<lparr>FLAGS_obj_size_kb := 2097152\<rparr>)
     (Success \<lparr>ContentLength = 2147483648\<rparr>) \<lparr>num_outstanding_req = 1\<rparr> =
     Inl ([Str ''ERROR: invalid object size '', Num 2147483648, Str '', expected '',
           Num (- 2147483648), Str '' bytes'', Endl], Exit 1)"
  by (simp add: empty_object_schedule_def huge_object_flags_def default_flags_def process_exec
      worker_exec)

text \<open>
  C5.  Before the first step of \<^verbatim>\<open>main\<close> nothing has happened.  In every state after
  it, the flags are the configured ones except that a maximum of 0 or less has been
  replaced by the connection count, a positive maximum being left as it is; this value
  is what \<^verbatim>\<open>GetAvailableSlot\<close> compares the count with, and no later step changes it.
\<close>

theorem limit_normalised_once_at_startup:
  assumes "s = run elapsed es (initial fl)"
  shows "(mpc s = Start \<longrightarrow> s = initial fl) \<and>
         (mpc s \<noteq> Start \<longrightarrow>
            FLAGS s = fl\<lparr>FLAGS_num_outstanding_req :=
                           (if FLAGS_num_outstanding_req fl \<le>s 0 then FLAGS_num_connections fl
                            else FLAGS_num_outstanding_req fl)\<rparr> \<and>
            GetAvailableSlot_full (FLAGS s) c =
              ((if FLAGS_num_outstanding_req fl \<le>s 0 then FLAGS_num_connections fl
                else FLAGS_num_outstanding_req fl) \<le>s num_outstanding_req c))"
  using run_flags [of elapsed es fl] assms
  by (auto simp: normalised_def GetAvailableSlot_full_def initial_def)

theorem limit_normalised_once_at_startup_witness:
  "mpc (run (\<lambda>_. 2) [] (initial default_flags)) = Start \<and>
   run (\<lambda>_. 2) [] (initial default_flags) = initial default_flags \<and>
   mpc (run (\<lambda>_. 2) [Main, Main, Main, Main, Thread 0 Driver] (initial default_flags)) \<noteq> Start \<and>
   FLAGS (run (\<lambda>_. 2) [Main, Main, Main, Main, Thread 0 Driver] (initial default_flags)) =
     default_flags\<lparr>FLAGS_num_outstanding_req := 25\<rparr> \<and>
   GetAvailableSlot_full
     (FLAGS (run (\<lambda>_. 2) [Main, Main, Main, Main, Thread 0 Driver] (initial default_flags)))
     \<lparr>num_outstanding_req = 25\<rparr>"
proof -
  let ?s = "run (\<lambda>_. 2) [Main, Main, Main, Main, Thread 0 Driver] (initial default_flags)"
  have a: "mpc (run (\<lambda>_. 2) [] (initial default_flags)) = Start" by (simp add: initial_def)
  have b: "mpc ?s \<noteq> Start"
    by (simp add: default_flags_def process_exec worker_exec)
  from limit_normalised_once_at_startup [OF refl, of "\<lambda>_. 2" "[]" default_flags] a
  have 1: "run (\<lambda>_. 2) [] (initial default_flags) = initial default_flags" by blast
  note r = limit_normalised_once_at_startup [OF refl, of "\<lambda>_. 2"
      "[Main, Main, Main, Main, Thread 0 Driver]" default_flags "\<lparr>num_outstanding_req = 25\<rparr>"]
  from r b have "FLAGS ?s = default_flags\<lparr>FLAGS_num_outstanding_req :=
      (if FLAGS_num_outstanding_req default_flags \<le>s 0 then FLAGS_num_connections default_flags
       else FLAGS_num_outstanding_req default_flags)\<rparr>"
    by blast
  also have "\<dots> = default_flags\<lparr>FLAGS_num_outstanding_req := 25\<rparr>"
    by (simp add: default_flags_def)
  finally have 2: "FLAGS ?s = default_flags\<lparr>FLAGS_num_outstanding_req := 25\<rparr>" .
  have "(if FLAGS_num_outstanding_req default_flags \<le>s 0 then FLAGS_num_connections default_flags
       else FLAGS_num_outstanding_req default_flags) \<le>s
      num_outstanding_req \<lparr>num_outstanding_req = 25\<rparr>"
    by (simp add: default_flags_def)
  with r b have 3: "GetAvailableSlot_full (FLAGS ?s) \<lparr>num_outstanding_req = 25\<rparr>"
    by blast
  from a b 1 2 3 show ?thesis by blast
qed

text \<open>
  C7.  The summary printed by the destructor of a report after a positive elapsed time: the
  object count is \<^verbatim>\<open>num_threads_ * obj_per_thread_\<close> as computed in \<^verbatim>\<open>int\<close>, which is
  the product of the integers whenever that fits an \<^verbatim>\<open>int\<close>; the size in MB is
  \<open>obj_size_kb * count / 1024\<close>, the throughput is that size divided by the elapsed
  seconds, and the object rate is the count divided by the elapsed seconds.
\<close>

theorem report_summary_formulas:
  assumes "0 < time_sec"
    and "num_obj = sint (num_threads r * obj_per_thread r)"
    and "total_size_mb = real_of_int (sint (obj_size_kb r)) * real_of_int num_obj / 1024"
  shows "ReportDuration_dtor r time_sec =
    [Str (operation r), Str '' completed in '', Dbl time_sec, Str '' seconds (total: '',
     Num num_obj, Str '' objects, '', Dbl total_size_mb, Str '' MB)'', Endl,
     Str (operation r), Str '' throughput: '', Dbl (total_size_mb / time_sec),
     Str '' MB/sec, '', Dbl (real_of_int num_obj / time_sec), Str '' obj/sec'', Endl, Endl] \<and>
    (- (2 ^ 31) \<le> sint (num_threads r) * sint (obj_per_thread r) \<and>
     sint (num_threads r) * sint (obj_per_thread r) < 2 ^ 31 \<longrightarrow>
       num_obj = sint (num_threads r) * sint (obj_per_thread r))"
proof -
  have "ReportDuration_dtor r time_sec =
    [Str (operation r), Str '' completed in '', Dbl time_sec, Str '' seconds (total: '',
     Num num_obj, Str '' objects, '', Dbl total_size_mb, Str '' MB)'', Endl,
     Str (operation r), Str '' throughput: '', Dbl (total_size_mb / time_sec),
     Str '' MB/sec, '', Dbl (real_of_int num_obj / time_sec), Str '' obj/sec'', Endl, Endl]"
    unfolding ReportDuration_dtor_def Let_def assms(2,3) ..
  with sint_mult_in_range [of "num_threads r" "obj_per_thread r"] assms(2) show ?thesis
    by simp
qed

theorem report_summary_formulas_witness:
  "ReportDuration_dtor
     \<lparr>operation = ''  [1] UPLOAD'', num_threads = 2, obj_per_thread = 3, obj_size_kb = 1\<rparr> 2 =
    [Str ''  [1] UPLOAD'', Str '' completed in '', Dbl 2, Str '' seconds (total: '',
     Num 6, Str '' objects, '', Dbl (6 / 1024), Str '' MB)'', Endl,
     Str ''  [1] UPLOAD'', Str '' throughput: '', Dbl (6 / 1024 / 2),
     Str '' MB/sec, '', Dbl (6 / 2), Str '' obj/sec'', Endl, Endl] \<and>
   - (2 ^ 31) \<le> sint (2::int32) * sint (3::int32) \<and> sint (2::int32) * sint (3::int32) < 2 ^ 31 \<and>
   (6::int) = sint (2::int32) * sint (3::int32)"
proof -
  let ?r = "\<lparr>operation = ''  [1] UPLOAD'', num_threads = 2, obj_per_thread = 3,
      obj_size_kb = (1::int32)\<rparr>"
  have h1: "(0::real) < 2" by simp
  have h2: "(6::int) = sint (num_threads ?r * obj_per_thread ?r)" by simp
  have h3: "(6 / 1024 :: real) = real_of_int (sint (obj_size_kb ?r)) * real_of_int 6 / 1024"
    by simp
  from report_summary_formulas [OF h1 h2 h3] show ?thesis by simp
qed





end
